theory Spec2Isabelle
  imports Main "HOL-Library.Multiset" "HOL-Library.Sublist"
begin

section \<open>Strings\<close>

text \<open>
  A Python \<open>str\<close> is a sequence of Unicode code points, modelled as a list of naturals.
  \<open>str\<close> turns an ASCII literal into such a list.
\<close>

type_synonym uchar = nat
type_synonym ustr = "uchar list"

abbreviation str :: "string \<Rightarrow> ustr" where
  "str s \<equiv> map of_char s"

definition ascii_upper :: "uchar \<Rightarrow> bool" where
  "ascii_upper c = (65 \<le> c \<and> c \<le> 90)"

definition ascii_lower :: "uchar \<Rightarrow> bool" where
  "ascii_lower c = (97 \<le> c \<and> c \<le> 122)"

definition ascii_letter :: "uchar \<Rightarrow> bool" where
  "ascii_letter c = (ascii_upper c \<or> ascii_lower c)"

definition ascii_digit :: "uchar \<Rightarrow> bool" where
  "ascii_digit c = (48 \<le> c \<and> c \<le> 57)"

text \<open>
  \<open>\s\<close> in a \<open>str\<close> pattern and \<open>str.strip()\<close> use Python's Unicode whitespace:
  U+0009..U+000D, U+001C..U+0020, U+0085, U+00A0, U+1680, U+2000..U+200A, U+2028, U+2029,
  U+202F, U+205F and U+3000.
\<close>

definition isspace :: "uchar \<Rightarrow> bool" where
  "isspace c = ((9 \<le> c \<and> c \<le> 13) \<or> (28 \<le> c \<and> c \<le> 32) \<or> c = 133 \<or> c = 160 \<or> c = 5760
     \<or> (8192 \<le> c \<and> c \<le> 8202) \<or> c = 8232 \<or> c = 8233 \<or> c = 8239 \<or> c = 8287 \<or> c = 12288)"

text \<open>
  \<open>\w\<close> in a \<open>str\<close> pattern is an alphanumeric code point or the underscore. On ASCII
  that is \<open>[a-zA-Z0-9_]\<close>; beyond ASCII it is the Unicode database's \<open>isalnum\<close>, which
  the functions below take as the parameter \<open>U\<close>.
\<close>

definition is_word :: "(uchar \<Rightarrow> bool) \<Rightarrow> uchar \<Rightarrow> bool" where
  "is_word U c = (if c < 128 then ascii_letter c \<or> ascii_digit c \<or> c = 95 else U c)"

text \<open>\<open>s[a:b]\<close> for \<open>a \<le> b \<le> len(s)\<close>.\<close>

definition slice :: "'a list \<Rightarrow> nat \<Rightarrow> nat \<Rightarrow> 'a list" where
  "slice s a b = take (b - a) (drop a s)"

text \<open>\<open>sep.join(xs)\<close>.\<close>

fun join :: "ustr \<Rightarrow> ustr list \<Rightarrow> ustr" where
  "join sep [] = []"
| "join sep [x] = x"
| "join sep (x # y # ys) = x @ sep @ join sep (y # ys)"

text \<open>\<open>s.strip()\<close>: whitespace removed at both ends.\<close>

definition strip :: "ustr \<Rightarrow> ustr" where
  "strip s = rev (dropWhile isspace (rev (dropWhile isspace s)))"

section \<open>collections.Counter\<close>

text \<open>
  A \<open>Counter\<close> is a \<open>dict\<close> from words to Python integers. A \<open>dict\<close> keeps its keys in
  insertion order, and \<open>most_common\<close> depends on that order, so the model is an
  association list; \<open>wf_counter\<close> says that no key occurs twice.
\<close>

type_synonym counter = "(ustr \<times> int) list"

definition wf_counter :: "counter \<Rightarrow> bool" where
  "wf_counter c = distinct (map fst c)"

definition keys :: "counter \<Rightarrow> ustr set" where
  "keys c = fst ` set c"

text \<open>\<open>c[w]\<close>: a missing key reads as 0 (\<open>Counter.__missing__\<close>) and is not inserted.\<close>

fun getitem :: "counter \<Rightarrow> ustr \<Rightarrow> int" where
  "getitem [] w = 0"
| "getitem ((k, n) # c) w = (if k = w then n else getitem c w)"

text \<open>\<open>c[w] = v\<close>: an existing key keeps its place, a new key goes to the end.\<close>

fun setitem :: "counter \<Rightarrow> ustr \<Rightarrow> int \<Rightarrow> counter" where
  "setitem [] w v = [(w, v)]"
| "setitem ((k, n) # c) w v = (if k = w then (k, v) # c else (k, n) # setitem c w v)"

text \<open>\<open>counter[word] += 1\<close>\<close>

definition incr :: "counter \<Rightarrow> ustr \<Rightarrow> counter" where
  "incr c w = setitem c w (getitem c w + 1)"

text \<open>
  \<open>Counter.update(other)\<close> for a mapping \<open>other\<close>: when \<open>self\<close> is not empty, every
  \<open>(elem, count)\<close> of \<open>other.items()\<close> is added with
  \<open>self[elem] = count + self.get(elem, 0)\<close>; an empty \<open>self\<close> takes the fast path
  \<open>dict.update(other)\<close>.
\<close>

definition dict_update :: "counter \<Rightarrow> counter \<Rightarrow> counter" where
  "dict_update self other = fold (\<lambda>(elem, count) d. setitem d elem count) other self"

definition counter_update :: "counter \<Rightarrow> counter \<Rightarrow> counter" where
  "counter_update self other =
     (if self \<noteq> []
      then fold (\<lambda>(elem, count) d. setitem d elem (count + getitem d elem)) other self
      else dict_update self other)"

text \<open>
  \<open>most_common()\<close> is \<open>sorted(self.items(), key=itemgetter(1), reverse=True)\<close>: a stable
  sort by descending count, where \<open>reverse=True\<close> keeps equal counts in their original
  order.
\<close>

definition most_common :: "counter \<Rightarrow> (ustr \<times> int) list" where
  "most_common c = sort_key (\<lambda>(w, n). - n) c"

section \<open>The two regular expressions of process_url\<close>

text \<open>\<open>[.!?]\<close>\<close>

definition sentence_end :: "uchar \<Rightarrow> bool" where
  "sentence_end c = (c = 46 \<or> c = 33 \<or> c = 63)"

text \<open>
  A match of \<open>(?<=[.!?])\s+\<close> at position \<open>pos\<close>: the character before is one of
  \<open>.!?\<close>, the character at \<open>pos\<close> is whitespace, and the greedy \<open>\s+\<close> takes the whole
  run of whitespace. The result is the end of the match.
\<close>

definition split_match :: "ustr \<Rightarrow> nat \<Rightarrow> nat option" where
  "split_match s pos =
     (if 0 < pos \<and> pos < length s \<and> sentence_end (s ! (pos - 1)) \<and> isspace (s ! pos)
      then Some (pos + length (takeWhile isspace (drop pos s)))
      else None)"

text \<open>
  \<open>re.split\<close>: the pieces between the successive leftmost matches, found from \<open>pos\<close> on;
  \<open>start\<close> is where the current piece starts.
\<close>

function re_split_from :: "ustr \<Rightarrow> nat \<Rightarrow> nat \<Rightarrow> ustr list" where
  "re_split_from s start pos =
     (if length s \<le> pos then [slice s start (length s)]
      else case split_match s pos of
             Some e \<Rightarrow> slice s start pos # re_split_from s e e
           | None \<Rightarrow> re_split_from s start (pos + 1))"
  by pat_completeness auto
termination
proof (relation "measure (\<lambda>(s, start, pos). length s - pos)")
  show "wf (measure (\<lambda>(s, start, pos). length s - pos))" by simp
next
  fix s :: ustr and start pos e :: nat
  assume "\<not> length s \<le> pos" and m: "split_match s pos = Some e"
  from m have "isspace (s ! pos)" and "pos < length s"
    and e: "e = pos + length (takeWhile isspace (drop pos s))"
    by (auto simp: split_match_def split: if_splits)
  then have "takeWhile isspace (drop pos s) \<noteq> []"
    by (simp add: takeWhile_eq_Nil_iff hd_drop_conv_nth)
  with e have "pos < e" by simp
  with \<open>pos < length s\<close> show "((s, e, e), (s, start, pos)) \<in> measure (\<lambda>(s, start, pos). length s - pos)"
    by simp
next
  fix s :: ustr and start pos :: nat
  assume "\<not> length s \<le> pos"
  then show "((s, start, pos + 1), (s, start, pos)) \<in> measure (\<lambda>(s, start, pos). length s - pos)"
    by simp
qed

definition re_split :: "ustr \<Rightarrow> ustr list" where
  "re_split s = re_split_from s 0 0"

text \<open>
  \<open>\b\<close> at position \<open>i\<close> (\<open>0 \<le> i \<le> len(s)\<close>): exactly one of the characters before and
  at \<open>i\<close> is a word character; outside the string counts as not a word character.
\<close>

definition word_boundary :: "(uchar \<Rightarrow> bool) \<Rightarrow> ustr \<Rightarrow> nat \<Rightarrow> bool" where
  "word_boundary U s i =
     ((i < length s \<and> is_word U (s ! i)) \<noteq> (0 < i \<and> is_word U (s ! (i - 1))))"

text \<open>
  A match of \<open>\b[A-Z][a-zA-Z]{2,}\b\<close> at position \<open>pos\<close>: a boundary, an uppercase ASCII
  letter, then the greedy \<open>{2,}\<close>, which first takes the whole run of ASCII letters and
  backtracks one letter at a time, down to two, until the final \<open>\b\<close> holds. The result
  is the end of the match.
\<close>

definition token_match :: "(uchar \<Rightarrow> bool) \<Rightarrow> ustr \<Rightarrow> nat \<Rightarrow> nat option" where
  "token_match U s pos =
     (if word_boundary U s pos \<and> pos < length s \<and> ascii_upper (s ! pos)
      then map_option (\<lambda>k. pos + 1 + k)
             (find (\<lambda>k. word_boundary U s (pos + 1 + k))
                (rev [2 ..< length (takeWhile ascii_letter (drop (pos + 1) s)) + 1]))
      else None)"

text \<open>\<open>re.findall\<close>: the successive leftmost matches, none overlapping the one before.\<close>

function findall_from :: "(uchar \<Rightarrow> bool) \<Rightarrow> ustr \<Rightarrow> nat \<Rightarrow> ustr list" where
  "findall_from U s pos =
     (if length s \<le> pos then []
      else case token_match U s pos of
             Some e \<Rightarrow> slice s pos e # findall_from U s e
           | None \<Rightarrow> findall_from U s (pos + 1))"
  by pat_completeness auto
termination
proof (relation "measure (\<lambda>(U, s, pos). length s - pos)")
  show "wf (measure (\<lambda>(U, s, pos). length s - pos))" by simp
next
  fix U :: "uchar \<Rightarrow> bool" and s :: ustr and pos e :: nat
  assume "\<not> length s \<le> pos" and m: "token_match U s pos = Some e"
  from m have "pos < e"
    by (auto simp: token_match_def split: if_splits)
  with \<open>\<not> length s \<le> pos\<close> show "((U, s, e), (U, s, pos)) \<in> measure (\<lambda>(U, s, pos). length s - pos)"
    by simp
next
  fix U :: "uchar \<Rightarrow> bool" and s :: ustr and pos :: nat
  assume "\<not> length s \<le> pos"
  then show "((U, s, pos + 1), (U, s, pos)) \<in> measure (\<lambda>(U, s, pos). length s - pos)"
    by simp
qed

definition findall :: "(uchar \<Rightarrow> bool) \<Rightarrow> ustr \<Rightarrow> ustr list" where
  "findall U s = findall_from U s 0"

section \<open>Counting the words of a text\<close>

text \<open>\<open>for word in words[1:]: counter[word] += 1\<close>\<close>

definition count_words :: "counter \<Rightarrow> ustr list \<Rightarrow> counter" where
  "count_words c words = fold (\<lambda>word c. incr c word) (drop 1 words) c"

text \<open>The loop over the sentences, from \<open>counter = Counter()\<close>.\<close>

definition count_sentences :: "(uchar \<Rightarrow> bool) \<Rightarrow> ustr list \<Rightarrow> counter" where
  "count_sentences U sentences =
     fold (\<lambda>sentence c. count_words c (findall U sentence)) sentences []"

definition count_text :: "(uchar \<Rightarrow> bool) \<Rightarrow> ustr \<Rightarrow> counter" where
  "count_text U text = count_sentences U (re_split text)"

section \<open>The parsed page\<close>

text \<open>
  \<open>BeautifulSoup(resp.text, 'html.parser')\<close> gives a tree of tags and strings. A
  \<open>NavigableString\<close> is text that \<open>get_text\<close> returns; \<open>Comment\<close> stands for a comment
  and for the other string classes that \<open>get_text\<close> leaves out. The parser itself is a
  parameter of \<open>process_url\<close>.
\<close>

datatype node = Tag ustr "node list" | NavigableString ustr | Comment ustr

fun named :: "ustr list \<Rightarrow> node \<Rightarrow> bool" where
  "named names (Tag n cs) = (n \<in> set names)"
| "named names (NavigableString s) = False"
| "named names (Comment s) = False"

text \<open>
  \<open>for tag in soup(names): tag.extract()\<close>: every tag below \<open>soup\<close> whose name is in
  \<open>names\<close> is taken out of the tree, with all it contains.
\<close>

fun extract_all :: "ustr list \<Rightarrow> node \<Rightarrow> node" where
  "extract_all names (Tag n cs) =
     Tag n (map (extract_all names) (filter (\<lambda>c. \<not> named names c) cs))"
| "extract_all names (NavigableString s) = NavigableString s"
| "extract_all names (Comment s) = Comment s"

text \<open>The strings \<open>get_text\<close> collects, in document order.\<close>

fun all_strings :: "node \<Rightarrow> ustr list" where
  "all_strings (Tag n cs) = concat (map all_strings cs)"
| "all_strings (NavigableString s) = [s]"
| "all_strings (Comment s) = []"

definition get_text :: "ustr \<Rightarrow> node \<Rightarrow> ustr" where
  "get_text separator soup = join separator (all_strings soup)"

section \<open>Exceptions, HTTP and logging\<close>

text \<open>
  The exceptions of a run. \<open>HTTPError\<close> (with the status code) is a subclass of
  \<open>RequestException\<close>; \<open>OtherException\<close>, with the name of its class and its message,
  stands for every other subclass of \<open>Exception\<close>, such as the \<open>LookupError\<close> that
  \<open>ET.fromstring\<close> raises for an unknown encoding or the \<open>LocationParseError\<close> of
  urllib3.
\<close>

datatype exn =
    RequestException ustr
  | HTTPError nat
  | ParseError ustr
  | EOFError
  | OtherException ustr ustr

text \<open>What \<open>except requests.RequestException\<close> and \<open>except ET.ParseError\<close> catch.\<close>

fun is_RequestException :: "exn \<Rightarrow> bool" where
  "is_RequestException (RequestException m) = True"
| "is_RequestException (HTTPError status) = True"
| "is_RequestException (ParseError m) = False"
| "is_RequestException EOFError = False"
| "is_RequestException (OtherException c m) = False"

fun is_ParseError :: "exn \<Rightarrow> bool" where
  "is_ParseError (RequestException m) = False"
| "is_ParseError (HTTPError status) = False"
| "is_ParseError (ParseError m) = True"
| "is_ParseError EOFError = False"
| "is_ParseError (OtherException c m) = False"

text \<open>
  \<open>session.get\<close> either raises an exception (\<open>Inl\<close>) or returns a response: status
  code, \<open>content\<close> and \<open>text\<close>. \<open>raise_for_status\<close> raises \<open>HTTPError\<close> for the
  status codes 400 to 599, and for no other.
\<close>

datatype response = Response nat "nat list" ustr

type_synonym http_outcome = "exn + response"

definition raise_for_status :: "nat \<Rightarrow> bool" where
  "raise_for_status status = (400 \<le> status \<and> status < 600)"

datatype level = INFO | WARNING | ERROR

datatype message =
    Errore_download_sitemap ustr exn
  | Errore_parsing_XML_sitemap ustr exn
  | Trovate_URL nat ustr
  | Fallito_download ustr exn
  | Inizio_scansione nat
  | Errore_processing ustr exn
  | Pagina_processata nat nat ustr
  | Risultati_salvati ustr
  | Errore_scrittura_file ustr ustr

type_synonym log = "(level \<times> message) list"

section \<open>get_urls_from_sitemap\<close>

text \<open>
  An \<open>ElementTree\<close> element: its tag (\<open>{namespace}name\<close>), its \<open>text\<close> (\<open>None\<close> when
  there is none) and its children. \<open>ET.fromstring\<close> is a parameter: it returns the root
  or raises an exception (\<open>Inl\<close>), \<open>ParseError\<close> or another.
\<close>

datatype element = Element (tag: ustr) (elem_text: "ustr option") (children: "element list")

text \<open>\<open>Element.iter()\<close>: the element, then all below it, in document order.\<close>

fun iter :: "element \<Rightarrow> element list" where
  "iter (Element t x cs) = Element t x cs # concat (map iter cs)"

text \<open>\<open>root.findall('.//' + t)\<close>: the elements below the root with tag \<open>t\<close>.\<close>

definition findall_below :: "element \<Rightarrow> ustr \<Rightarrow> element list" where
  "findall_below root t = filter (\<lambda>e. tag e = t) (concat (map iter (children root)))"

definition loc_tag :: ustr where
  "loc_tag = str ''{http://www.sitemaps.org/schemas/sitemap/0.9}loc''"

text \<open>\<open>[loc.text.strip() for loc in locs if loc.text]\<close>\<close>

definition loc_urls :: "element list \<Rightarrow> ustr list" where
  "loc_urls locs =
     concat (map (\<lambda>loc. case elem_text loc of
                          None \<Rightarrow> []
                        | Some t \<Rightarrow> if t \<noteq> [] then [strip t] else []) locs)"

text \<open>
  The result is \<open>Inr\<close> of the lines logged and the list returned, or \<open>Inl\<close> of an
  exception that leaves the function: one that \<open>session.get\<close> raises and is no
  \<open>RequestException\<close>, or one that \<open>ET.fromstring\<close> raises and is no \<open>ParseError\<close>.
\<close>

definition get_urls_from_sitemap ::
  "(nat list \<Rightarrow> exn + element) \<Rightarrow> ustr \<Rightarrow> http_outcome \<Rightarrow> exn + (log \<times> ustr list)" where
  "get_urls_from_sitemap fromstring sitemap_url got =
     (case got of
        Inl e \<Rightarrow>
          if is_RequestException e
          then Inr ([(ERROR, Errore_download_sitemap sitemap_url e)], [])
          else Inl e
      | Inr (Response status content body) \<Rightarrow>
          if raise_for_status status
          then Inr ([(ERROR, Errore_download_sitemap sitemap_url (HTTPError status))], [])
          else (case fromstring content of
                  Inl e \<Rightarrow>
                    if is_ParseError e
                    then Inr ([(ERROR, Errore_parsing_XML_sitemap sitemap_url e)], [])
                    else Inl e
                | Inr root \<Rightarrow>
                    (let urls = loc_urls (findall_below root loc_tag)
                     in Inr ([(INFO, Trovate_URL (length urls) sitemap_url)], urls))))"

section \<open>process_url\<close>

text \<open>
  The result is \<open>Inr\<close> of the lines logged and the counter returned, or \<open>Inl\<close> of an
  exception that leaves the function: one that \<open>session.get\<close> raises and is no
  \<open>RequestException\<close>, or one that the HTML parser, a parameter, raises.
\<close>

definition process_url ::
  "(uchar \<Rightarrow> bool) \<Rightarrow> (ustr \<Rightarrow> exn + node) \<Rightarrow> ustr \<Rightarrow> http_outcome \<Rightarrow> exn + (log \<times> counter)" where
  "process_url U html_parser url got =
     (case got of
        Inl e \<Rightarrow>
          if is_RequestException e
          then Inr ([(WARNING, Fallito_download url e)], [])
          else Inl e
      | Inr (Response status content body) \<Rightarrow>
          if raise_for_status status
          then Inr ([(WARNING, Fallito_download url (HTTPError status))], [])
          else (case html_parser body of
                  Inl e \<Rightarrow> Inl e
                | Inr soup \<Rightarrow>
                    Inr ([], count_text U
                               (get_text (str '' '')
                                  (extract_all [str ''script'', str ''style''] soup)))))"

section \<open>main\<close>

definition sitemap_urls :: "ustr list" where
  "sitemap_urls =
     [str ''https://consulente-finanziario.org/post-sitemap.xml'',
      str ''https://consulente-finanziario.org/post-sitemap2.xml'']"

text \<open>
  \<open>for sm in sitemap_urls: all_urls.extend(get_urls_from_sitemap(sm, session))\<close>,
  from the lines logged and the URLs collected so far. Nothing around the call catches
  an exception: one that leaves \<open>get_urls_from_sitemap\<close> ends the loop, and \<open>main\<close>.
\<close>

fun read_sitemaps ::
  "(nat list \<Rightarrow> exn + element) \<Rightarrow> (ustr \<Rightarrow> http_outcome) \<Rightarrow> ustr list \<Rightarrow> log \<Rightarrow> ustr list
     \<Rightarrow> log \<times> (exn + ustr list)" where
  "read_sitemaps fromstring session_get [] lg all_urls = (lg, Inr all_urls)"
| "read_sitemaps fromstring session_get (sm # sms) lg all_urls =
     (case get_urls_from_sitemap fromstring sm (session_get sm) of
        Inl e \<Rightarrow> (lg, Inl e)
      | Inr (l, urls) \<Rightarrow> read_sitemaps fromstring session_get sms (lg @ l) (all_urls @ urls))"

text \<open>
  \<open>as_completed\<close> yields the futures in the order in which they complete, which the
  thread pool decides. The schedule \<open>sched\<close> picks, at each step, which of the futures
  still pending completes next; when it runs out they complete in submission order.
\<close>

function as_completed :: "nat list \<Rightarrow> 'a list \<Rightarrow> 'a list" where
  "as_completed sched [] = []"
| "as_completed [] (x # xs) = x # xs"
| "as_completed (k # sched) (x # xs) =
     (x # xs) ! (k mod length (x # xs))
       # as_completed sched (take (k mod length (x # xs)) (x # xs)
                             @ drop (Suc (k mod length (x # xs))) (x # xs))"
  by pat_completeness auto
termination
proof (relation "measure (\<lambda>(sched, xs). length xs)")
  show "wf (measure (\<lambda>(sched :: nat list, xs :: 'a list). length xs))" by simp
next
  fix k :: nat and sched :: "nat list" and x :: 'a and xs :: "'a list"
  have "k mod length (x # xs) < length (x # xs)" by simp
  then have "length (take (k mod length (x # xs)) (x # xs)
                     @ drop (Suc (k mod length (x # xs))) (x # xs)) < length (x # xs)"
    by (simp del: length_Cons)
  then show "((sched, take (k mod length (x # xs)) (x # xs)
                      @ drop (Suc (k mod length (x # xs))) (x # xs)), (k # sched, x # xs))
             \<in> measure (\<lambda>(sched, xs). length xs)"
    by simp
qed

text \<open>
  The loop over the completed futures, as far as \<open>total_counter\<close> goes:
  \<open>total_counter.update(future.result())\<close>, where a \<open>result()\<close> that raises is caught
  by \<open>except Exception\<close> and leaves the counter as it is.
\<close>

fun fold_completed :: "counter \<Rightarrow> (exn + log \<times> counter) list \<Rightarrow> counter" where
  "fold_completed total_counter [] = total_counter"
| "fold_completed total_counter (Inr (lg, c) # rest) =
     fold_completed (counter_update total_counter c) rest"
| "fold_completed total_counter (Inl e # rest) = fold_completed total_counter rest"

text \<open>The lines the same loop logs (the percentage is left out of the message).\<close>

fun progress_log :: "nat \<Rightarrow> nat \<Rightarrow> ((exn + log \<times> counter) \<times> ustr) list \<Rightarrow> log" where
  "progress_log n idx [] = []"
| "progress_log n idx ((Inr r, url) # rest) =
     (INFO, Pagina_processata idx n url) # progress_log n (idx + 1) rest"
| "progress_log n idx ((Inl e, url) # rest) =
     (ERROR, Errore_processing url e) # (INFO, Pagina_processata idx n url)
       # progress_log n (idx + 1) rest"

text \<open>\<open>f"{count}"\<close> for a Python integer.\<close>

fun decimal :: "nat \<Rightarrow> ustr" where
  "decimal n = (if n < 10 then [48 + n] else decimal (n div 10) @ [48 + n mod 10])"

definition str_int :: "int \<Rightarrow> ustr" where
  "str_int i = (if i < 0 then 45 # decimal (nat (- i)) else decimal (nat i))"

text \<open>
  \<open>for word, count in total_counter.most_common(): f.write(f"{word}\t{count}\n")\<close>:
  every \<open>write\<close> appends to what the file \<open>f\<close> holds.
\<close>

definition write_lines :: "counter \<Rightarrow> ustr \<Rightarrow> ustr" where
  "write_lines total_counter f =
     fold (\<lambda>(word, count) f. f @ (word @ [9] @ str_int count @ [10]))
          (most_common total_counter) f"

text \<open>The file after the loop: \<open>open(output_file, 'w')\<close> starts from an empty file.\<close>

definition report :: "counter \<Rightarrow> ustr" where
  "report total_counter = write_lines total_counter []"

text \<open>
  What a run of \<open>main\<close> depends on, beyond the libraries: what \<open>session.get\<close> answers
  for each sitemap and for the \<open>i\<close>-th page, the order in which the futures complete,
  whether opening or writing \<open>word_counts.txt\<close> raises \<open>IOError\<close> (\<open>Some\<close> of its
  message), and the line \<open>input\<close> reads (\<open>None\<close> at end of file, where \<open>input\<close> raises
  \<open>EOFError\<close>).
\<close>

record world =
  sitemap_get :: "ustr \<Rightarrow> http_outcome"
  page_get :: "nat \<Rightarrow> ustr \<Rightarrow> http_outcome"
  completion :: "nat list"
  io_error :: "ustr option"
  stdin_line :: "ustr option"

text \<open>
  What a run leaves: the exit status of the process, the lines logged by the main thread
  and the file written (\<open>None\<close> when the write failed or was not reached).
  \<open>sys.exit(1)\<close> and an exception nobody catches both end the process with status 1.
\<close>

record run =
  exit_status :: nat
  logged :: log
  word_counts_txt :: "ustr option"

definition output_file :: ustr where
  "output_file = str ''word_counts.txt''"

definition crawl ::
  "(uchar \<Rightarrow> bool) \<Rightarrow> (ustr \<Rightarrow> exn + node) \<Rightarrow> world \<Rightarrow> ustr list
     \<Rightarrow> ((exn + log \<times> counter) \<times> ustr) list" where
  "crawl U html_parser w all_urls =
     as_completed (completion w)
       (map (\<lambda>(i, url). (process_url U html_parser url (page_get w i url), url))
          (enumerate 0 all_urls))"

definition main ::
  "(uchar \<Rightarrow> bool) \<Rightarrow> (nat list \<Rightarrow> exn + element) \<Rightarrow> (ustr \<Rightarrow> exn + node) \<Rightarrow> world \<Rightarrow> run" where
  "main U fromstring html_parser w =
     (case read_sitemaps fromstring (sitemap_get w) sitemap_urls [] [] of
        (lg0, Inl e) \<Rightarrow> \<lparr>exit_status = 1, logged = lg0, word_counts_txt = None\<rparr>
      | (lg0, Inr all_urls) \<Rightarrow>
          (let n = length all_urls;
               completed = crawl U html_parser w all_urls;
               total_counter = fold_completed [] (map fst completed);
               lg = lg0 @ [(INFO, Inizio_scansione n)] @ progress_log n 1 completed
           in case io_error w of
                Some e \<Rightarrow>
                  \<lparr>exit_status = 1,
                   logged = lg @ [(ERROR, Errore_scrittura_file output_file e)],
                   word_counts_txt = None\<rparr>
              | None \<Rightarrow>
                  \<lparr>exit_status = (case stdin_line w of None \<Rightarrow> 1 | Some l \<Rightarrow> 0),
                   logged = lg @ [(INFO, Risultati_salvati output_file)],
                   word_counts_txt = Some (report total_counter)\<rparr>))"

section \<open>Predicates the properties are stated with\<close>

text \<open>Every entry of the counter has a count above zero.\<close>

definition positive :: "counter \<Rightarrow> bool" where
  "positive c = list_all (\<lambda>(w, n). 0 < n) c"

text \<open>The counters of the futures whose \<open>result()\<close> returned, in the order given.\<close>

fun page_counts :: "(exn + log \<times> counter) list \<Rightarrow> counter list" where
  "page_counts [] = []"
| "page_counts (Inr (lg, c) # rest) = c # page_counts rest"
| "page_counts (Inl e # rest) = page_counts rest"

text \<open>The sum of all counts of a counter.\<close>

definition total_count :: "counter \<Rightarrow> int" where
  "total_count c = sum_list (map snd c)"

text \<open>A line that reports the failure to write the output file.\<close>

definition is_write_error :: "level \<times> message \<Rightarrow> bool" where
  "is_write_error entry =
     (case entry of (lv, Errore_scrittura_file f e) \<Rightarrow> lv = ERROR | _ \<Rightarrow> False)"

text \<open>
  The text of every \<open>loc\<close> element of the document, the root included, in document
  order, where the element has a text and the text is not empty.
\<close>

definition loc_texts :: "element \<Rightarrow> ustr list" where
  "loc_texts root =
     concat (map (\<lambda>e. case elem_text e of
                        None \<Rightarrow> []
                      | Some t \<Rightarrow> if t = [] then [] else [t])
               (filter (\<lambda>e. tag e = loc_tag) (iter root)))"

text \<open>
  The substring from \<open>i\<close> to \<open>j\<close> of the sentence is a qualifying token: an uppercase ASCII
  letter, then at least two ASCII letters and nothing but ASCII letters, with a word
  boundary at each end.
\<close>

definition is_token :: "(uchar \<Rightarrow> bool) \<Rightarrow> ustr \<Rightarrow> nat \<Rightarrow> nat \<Rightarrow> bool" where
  "is_token U s i j =
     (i + 3 \<le> j \<and> j \<le> length s \<and> ascii_upper (s ! i)
      \<and> list_all (\<lambda>k. ascii_letter (s ! k)) [i + 1 ..< j]
      \<and> word_boundary U s i \<and> word_boundary U s j)"

text \<open>
  The qualifying tokens of the sentence that start at \<open>pos\<close> or later, by increasing start;
  \<open>tokens\<close> are all of them, from left to right.
\<close>

definition tokens_from :: "(uchar \<Rightarrow> bool) \<Rightarrow> ustr \<Rightarrow> nat \<Rightarrow> ustr list" where
  "tokens_from U s pos =
     concat (map (\<lambda>i. map (\<lambda>j. slice s i j) (filter (is_token U s i) [i ..< length s + 1]))
               [pos ..< length s])"

definition tokens :: "(uchar \<Rightarrow> bool) \<Rightarrow> ustr \<Rightarrow> ustr list" where
  "tokens U s = tokens_from U s 0"

text \<open>
  The string \<open>s\<close> is a \<open>NavigableString\<close> of the page that lies in no tag named in
  \<open>names\<close> (the root apart, which \<open>soup(names)\<close> does not look at).
\<close>

inductive occurs_outside :: "ustr list \<Rightarrow> ustr \<Rightarrow> node \<Rightarrow> bool" for names where
  here: "occurs_outside names s (NavigableString s)"
| below: "c \<in> set cs \<Longrightarrow> \<not> named names c \<Longrightarrow> occurs_outside names s c
          \<Longrightarrow> occurs_outside names s (Tag n cs)"



text \<open>
  The fetch or the parse of a sitemap fails in one of the ways \<open>get_urls_from_sitemap\<close>
  catches: \<open>session.get\<close> raises a \<open>RequestException\<close>, the status is one
  \<open>raise_for_status\<close> raises for, or \<open>ET.fromstring\<close> raises \<open>ParseError\<close>.
\<close>

definition sitemap_caught :: "(nat list \<Rightarrow> exn + element) \<Rightarrow> http_outcome \<Rightarrow> bool" where
  "sitemap_caught fromstring got =
     (case got of
        Inl e \<Rightarrow> is_RequestException e
      | Inr (Response status content body) \<Rightarrow>
          raise_for_status status
          \<or> (case fromstring content of Inl e \<Rightarrow> is_ParseError e | Inr root \<Rightarrow> False))"

text \<open>
  The fetch or the parse of a sitemap raises an exception that \<open>get_urls_from_sitemap\<close>
  does not catch.
\<close>

definition sitemap_escapes :: "(nat list \<Rightarrow> exn + element) \<Rightarrow> http_outcome \<Rightarrow> bool" where
  "sitemap_escapes fromstring got =
     (case got of
        Inl e \<Rightarrow> \<not> is_RequestException e
      | Inr (Response status content body) \<Rightarrow>
          \<not> raise_for_status status
          \<and> (case fromstring content of Inl e \<Rightarrow> \<not> is_ParseError e | Inr root \<Rightarrow> False))"

text \<open>The number a string of decimal digits stands for.\<close>

definition decimal_value :: "ustr \<Rightarrow> nat" where
  "decimal_value ds = fold (\<lambda>d acc. 10 * acc + (d - 48)) ds 0"

section \<open>Example inputs\<close>

text \<open>
  A Unicode table with no alphanumeric character beyond ASCII, an HTML parser that
  returns its input as one string under the root, and an XML parser that returns an
  empty \<open>urlset\<close>.
\<close>

definition no_alnum :: "uchar \<Rightarrow> bool" where
  "no_alnum c = False"

definition page_of_text :: "ustr \<Rightarrow> exn + node" where
  "page_of_text body = Inr (Tag (str ''[document]'') [NavigableString body])"

definition always_urlset :: "nat list \<Rightarrow> exn + element" where
  "always_urlset content =
     Inr (Element (str ''{http://www.sitemaps.org/schemas/sitemap/0.9}urlset'') None [])"

text \<open>
  An XML parser that returns a given tree; the sitemap of the specification's example,
  the same with tags that carry no namespace, and one whose only \<open>loc\<close> holds two
  spaces; a \<open>session.get\<close> that always answers
  200; a run where nothing fails but \<open>input\<close> finds standard input at its end; and a
  run where the output file cannot be written.
\<close>

definition parses_to :: "element \<Rightarrow> nat list \<Rightarrow> exn + element" where
  "parses_to root content = Inr root"

definition sitemap_ns :: "string \<Rightarrow> ustr" where
  "sitemap_ns name = str ''{http://www.sitemaps.org/schemas/sitemap/0.9}'' @ str name"

definition example_sitemap :: element where
  "example_sitemap =
     Element (sitemap_ns ''urlset'') None
       [Element (sitemap_ns ''url'') None
          [Element (sitemap_ns ''loc'') (Some (str ''https://example.com/a'')) []],
        Element (sitemap_ns ''url'') None
          [Element (sitemap_ns ''loc'') (Some (str ''https://example.com/b'')) []]]"

definition unqualified_example_sitemap :: element where
  "unqualified_example_sitemap =
     Element (str ''urlset'') None
       [Element (str ''url'') None
          [Element (str ''loc'') (Some (str ''https://example.com/a'')) []],
        Element (str ''url'') None
          [Element (str ''loc'') (Some (str ''https://example.com/b'')) []]]"

definition blank_loc_sitemap :: element where
  "blank_loc_sitemap =
     Element (sitemap_ns ''urlset'') None
       [Element (sitemap_ns ''url'') None
          [Element (sitemap_ns ''loc'') (Some (str ''  '')) []]]"

definition all_fine :: "ustr \<Rightarrow> http_outcome" where
  "all_fine url = Inr (Response 200 [] [])"

definition eof_world :: world where
  "eof_world = \<lparr>sitemap_get = all_fine, page_get = (\<lambda>i. all_fine), completion = [],
                 io_error = None, stdin_line = None\<rparr>"

definition readonly_world :: world where
  "readonly_world = \<lparr>sitemap_get = all_fine, page_get = (\<lambda>i. all_fine), completion = [],
                      io_error = Some (str ''Permission denied''), stdin_line = Some []\<rparr>"

text \<open>
  An HTML parser that returns a given tree, and a page with one \<open>script\<close> and one
  paragraph.
\<close>

definition always_page :: "node \<Rightarrow> ustr \<Rightarrow> exn + node" where
  "always_page soup body = Inr soup"

definition script_page :: node where
  "script_page =
     Tag (str ''[document]'')
       [Tag (str ''script'') [NavigableString (str ''var Secret Token Value.'')],
        Tag (str ''p'') [NavigableString (str ''Hello World again.'')]]"

text \<open>
  An XML parser that raises \<open>LookupError\<close>, as \<open>ET.fromstring\<close> does for a document
  that declares an encoding Python does not know; a \<open>session.get\<close> that raises urllib3's
  \<open>LocationParseError\<close>, which is no \<open>RequestException\<close>; a \<open>session.get\<close> that
  answers 200 for the first sitemap and 404 for the second; pages that read
  "Visit Rome." and "Visit Milan." in turn; two runs over these pages that differ only
  in the order in which the futures complete; and a run in which nothing fails.
\<close>

definition unknown_encoding :: "nat list \<Rightarrow> exn + element" where
  "unknown_encoding content =
     Inl (OtherException (str ''LookupError'') (str ''unknown encoding: foo''))"

definition bad_location :: http_outcome where
  "bad_location =
     Inl (OtherException (str ''LocationParseError'') (str ''Failed to parse: http://[''))"

definition one_sitemap :: "ustr \<Rightarrow> http_outcome" where
  "one_sitemap url =
     (if url = hd sitemap_urls then Inr (Response 200 [] []) else Inr (Response 404 [] []))"

definition alternating_pages :: "nat \<Rightarrow> ustr \<Rightarrow> http_outcome" where
  "alternating_pages i url =
     Inr (Response 200 [] (if even i then str ''Visit Rome.'' else str ''Visit Milan.''))"

definition in_order_world :: world where
  "in_order_world = \<lparr>sitemap_get = one_sitemap, page_get = alternating_pages, completion = [],
                      io_error = None, stdin_line = Some []\<rparr>"

definition last_first_world :: world where
  "last_first_world = \<lparr>sitemap_get = one_sitemap, page_get = alternating_pages,
                        completion = [1], io_error = None, stdin_line = Some []\<rparr>"

definition quiet_world :: world where
  "quiet_world = \<lparr>sitemap_get = all_fine, page_get = (\<lambda>i. all_fine), completion = [],
                   io_error = None, stdin_line = Some []\<rparr>"

section \<open>Counters\<close>

lemma keys_Nil: "keys [] = {}"
  by (simp add: keys_def)

lemma keys_Cons: "keys ((k, n) # c) = insert k (keys c)"
  by (simp add: keys_def)

lemma keys_setitem: "keys (setitem c w v) = insert w (keys c)"
  by (induction c w v rule: setitem.induct) (auto simp: keys_def)

lemma map_fst_setitem:
  "map fst (setitem c w v) = (if w \<in> keys c then map fst c else map fst c @ [w])"
  by (induction c w v rule: setitem.induct) (auto simp: keys_def)

lemma wf_setitem: "wf_counter c \<Longrightarrow> wf_counter (setitem c w v)"
  by (simp add: wf_counter_def map_fst_setitem keys_def)

lemma getitem_setitem: "getitem (setitem c w v) w' = (if w' = w then v else getitem c w')"
  by (induction c w v rule: setitem.induct) auto

lemma positive_setitem: "positive c \<Longrightarrow> 0 < v \<Longrightarrow> positive (setitem c w v)"
  by (induction c w v rule: setitem.induct) (auto simp: positive_def)

lemma getitem_nonneg: "positive c \<Longrightarrow> 0 \<le> getitem c w"
  by (induction c w rule: getitem.induct) (auto simp: positive_def)

lemma getitem_notin: "w \<notin> keys c \<Longrightarrow> getitem c w = 0"
  by (induction c w rule: getitem.induct) (auto simp: keys_def)

lemma getitem_pos: "positive c \<Longrightarrow> w \<in> keys c \<Longrightarrow> 0 < getitem c w"
  by (induction c w rule: getitem.induct) (auto simp: positive_def keys_def)

lemma map_of_getitem: "map_of c w = (if w \<in> keys c then Some (getitem c w) else None)"
  by (induction c w rule: getitem.induct) (auto simp: keys_def)

lemma positive_incr: "positive c \<Longrightarrow> positive (incr c w)"
  using getitem_nonneg [of c w] by (simp add: incr_def positive_setitem)

lemma wf_incr: "wf_counter c \<Longrightarrow> wf_counter (incr c w)"
  by (simp add: incr_def wf_setitem)

lemma keys_incr: "keys (incr c w) = insert w (keys c)"
  by (simp add: incr_def keys_setitem)

lemma getitem_incr: "getitem (incr c w) w' = getitem c w' + (if w' = w then 1 else 0)"
  by (simp add: incr_def getitem_setitem)

text \<open>The loop of \<open>Counter.update\<close>.\<close>

abbreviation add_items :: "counter \<Rightarrow> counter \<Rightarrow> counter" where
  "add_items other self \<equiv>
     fold (\<lambda>(elem, count) d. setitem d elem (count + getitem d elem)) other self"

lemma keys_add_items: "keys (add_items other self) = keys self \<union> keys other"
  by (induction other arbitrary: self) (auto simp: keys_setitem keys_Nil keys_Cons)

lemma wf_add_items: "wf_counter self \<Longrightarrow> wf_counter (add_items other self)"
  by (induction other arbitrary: self) (auto simp: wf_setitem)

lemma positive_add_items:
  "positive self \<Longrightarrow> positive other \<Longrightarrow> positive (add_items other self)"
proof (induction other arbitrary: self)
  case Nil
  then show ?case by simp
next
  case (Cons p other)
  obtain elem count where p: "p = (elem, count)" by (cases p)
  from Cons.prems p have "0 < count" "positive other" by (simp_all add: positive_def)
  moreover have "0 \<le> getitem self elem" using Cons.prems(1) by (rule getitem_nonneg)
  ultimately have "positive (setitem self elem (count + getitem self elem))"
    using Cons.prems(1) by (intro positive_setitem) simp_all
  with Cons.IH \<open>positive other\<close> p show ?case by simp
qed

lemma getitem_add_items:
  "wf_counter other \<Longrightarrow> getitem (add_items other self) w = getitem self w + getitem other w"
proof (induction other arbitrary: self)
  case Nil
  then show ?case by simp
next
  case (Cons p other)
  obtain elem count where p: "p = (elem, count)" by (cases p)
  from Cons.prems p have wf: "wf_counter other" and notin: "elem \<notin> keys other"
    by (simp_all add: wf_counter_def keys_def)
  from notin have "getitem other elem = 0" by (rule getitem_notin)
  then show ?case
    using Cons.IH [OF wf] p by (auto simp: getitem_setitem)
qed

lemma setitem_new: "w \<notin> keys c \<Longrightarrow> setitem c w v = c @ [(w, v)]"
  by (induction c w v rule: setitem.induct) (auto simp: keys_def)

lemma dict_update_fresh:
  "distinct (map fst (self @ other)) \<Longrightarrow> dict_update self other = self @ other"
proof (induction other arbitrary: self)
  case Nil
  then show ?case by (simp add: dict_update_def)
next
  case (Cons p other)
  obtain elem count where p: "p = (elem, count)" by (cases p)
  from Cons.prems p have "elem \<notin> keys self" by (auto simp: keys_def)
  then have s: "setitem self elem count = self @ [(elem, count)]" by (rule setitem_new)
  from Cons.prems p have "distinct (map fst ((self @ [(elem, count)]) @ other))" by simp
  from Cons.IH [OF this] s p show ?case by (simp add: dict_update_def)
qed

lemma counter_update_empty: "wf_counter other \<Longrightarrow> counter_update [] other = other"
  using dict_update_fresh [of "[]" other] by (simp add: counter_update_def wf_counter_def)

lemma keys_counter_update:
  assumes "wf_counter other"
  shows "keys (counter_update self other) = keys self \<union> keys other"
proof (cases "self = []")
  case True
  with assms show ?thesis by (simp add: counter_update_empty keys_Nil)
next
  case False
  then show ?thesis by (simp add: counter_update_def keys_add_items)
qed

lemma wf_counter_update:
  assumes "wf_counter self" and "wf_counter other"
  shows "wf_counter (counter_update self other)"
proof (cases "self = []")
  case True
  with assms show ?thesis by (simp add: counter_update_empty)
next
  case False
  with assms show ?thesis by (simp add: counter_update_def wf_add_items)
qed

lemma positive_counter_update:
  assumes "wf_counter other" and "positive self" and "positive other"
  shows "positive (counter_update self other)"
proof (cases "self = []")
  case True
  with assms show ?thesis by (simp add: counter_update_empty)
next
  case False
  with assms show ?thesis by (simp add: counter_update_def positive_add_items)
qed

lemma getitem_counter_update:
  assumes "wf_counter other"
  shows "getitem (counter_update self other) w = getitem self w + getitem other w"
proof (cases "self = []")
  case True
  with assms show ?thesis by (simp add: counter_update_empty)
next
  case False
  with assms show ?thesis by (simp add: counter_update_def getitem_add_items)
qed

section \<open>Counting and merging\<close>

lemma wf_counter_Nil: "wf_counter []"
  by (simp add: wf_counter_def)

lemma positive_Nil: "positive []"
  by (simp add: positive_def)

lemma fold_incr_wf: "wf_counter c \<Longrightarrow> wf_counter (fold (\<lambda>word c. incr c word) ws c)"
  by (induction ws arbitrary: c) (simp_all add: wf_incr)

lemma fold_incr_positive: "positive c \<Longrightarrow> positive (fold (\<lambda>word c. incr c word) ws c)"
  by (induction ws arbitrary: c) (simp_all add: positive_incr)

lemma fold_incr_keys: "keys (fold (\<lambda>word c. incr c word) ws c) = keys c \<union> set ws"
  by (induction ws arbitrary: c) (auto simp: keys_incr)

lemma fold_incr_getitem:
  "getitem (fold (\<lambda>word c. incr c word) ws c) w = getitem c w + int (count_list ws w)"
  by (induction ws arbitrary: c) (auto simp: getitem_incr)

lemma fold_count_words_wf:
  "wf_counter c \<Longrightarrow> wf_counter (fold (\<lambda>sentence c. count_words c (f sentence)) ss c)"
  by (induction ss arbitrary: c) (simp_all add: count_words_def fold_incr_wf)

lemma fold_count_words_positive:
  "positive c \<Longrightarrow> positive (fold (\<lambda>sentence c. count_words c (f sentence)) ss c)"
  by (induction ss arbitrary: c) (simp_all add: count_words_def fold_incr_positive)

lemma wf_count_text: "wf_counter (count_text U t)"
  unfolding count_text_def count_sentences_def
  by (rule fold_count_words_wf) (rule wf_counter_Nil)

lemma positive_count_text: "positive (count_text U t)"
  unfolding count_text_def count_sentences_def
  by (rule fold_count_words_positive) (rule positive_Nil)

lemma process_url_wf: "process_url U hp url got = Inr (lg, c) \<Longrightarrow> wf_counter c"
  by (auto simp: process_url_def wf_count_text wf_counter_Nil
           split: sum.splits response.splits if_splits)

lemma process_url_positive: "process_url U hp url got = Inr (lg, c) \<Longrightarrow> positive c"
  by (auto simp: process_url_def positive_count_text positive_Nil
           split: sum.splits response.splits if_splits)

lemma wf_fold_completed:
  "wf_counter t \<Longrightarrow> \<forall>c \<in> set (page_counts rs). wf_counter c \<Longrightarrow> wf_counter (fold_completed t rs)"
  by (induction t rs rule: fold_completed.induct) (simp_all add: wf_counter_update)

lemma positive_fold_completed:
  "positive t \<Longrightarrow> \<forall>c \<in> set (page_counts rs). wf_counter c \<and> positive c
     \<Longrightarrow> positive (fold_completed t rs)"
  by (induction t rs rule: fold_completed.induct) (simp_all add: positive_counter_update)

lemma getitem_fold_completed:
  "\<forall>c \<in> set (page_counts rs). wf_counter c
     \<Longrightarrow> getitem (fold_completed t rs) w = getitem t w + (\<Sum>c\<leftarrow>page_counts rs. getitem c w)"
  by (induction t rs rule: fold_completed.induct) (simp_all add: getitem_counter_update)

lemma keys_fold_completed:
  "\<forall>c \<in> set (page_counts rs). wf_counter c
     \<Longrightarrow> keys (fold_completed t rs) = keys t \<union> \<Union> (keys ` set (page_counts rs))"
  by (induction t rs rule: fold_completed.induct) (auto simp: keys_counter_update)

lemma mset_page_counts:
  "mset (page_counts rs) =
     (\<Sum>r \<in># mset rs. case r of Inl e \<Rightarrow> {#} | Inr (lg, c) \<Rightarrow> {#c#})"
  by (induction rs rule: page_counts.induct) simp_all

lemma page_counts_perm: "mset rs' = mset rs \<Longrightarrow> mset (page_counts rs') = mset (page_counts rs)"
  by (simp add: mset_page_counts)

lemma sum_list_perm:
  fixes f :: "'a \<Rightarrow> int"
  assumes "mset xs = mset ys"
  shows "sum_list (map f xs) = sum_list (map f ys)"
proof -
  have "sum_list (map f xs) = sum_mset (image_mset f (mset xs))"
    by (metis mset_map sum_mset_sum_list)
  also have "\<dots> = sum_mset (image_mset f (mset ys))" using assms by simp
  also have "\<dots> = sum_list (map f ys)" by (metis mset_map sum_mset_sum_list)
  finally show ?thesis .
qed

lemma fold_completed_perm:
  assumes wf: "\<forall>c \<in> set (page_counts rs). wf_counter c" and perm: "mset rs' = mset rs"
  shows "map_of (fold_completed [] rs') = map_of (fold_completed [] rs)"
proof
  fix w
  from perm have pc: "mset (page_counts rs') = mset (page_counts rs)" by (rule page_counts_perm)
  then have sets: "set (page_counts rs') = set (page_counts rs)" by (rule mset_eq_setD)
  with wf have wf': "\<forall>c \<in> set (page_counts rs'). wf_counter c" by simp
  have "keys (fold_completed [] rs') = keys (fold_completed [] rs)"
    by (simp add: keys_fold_completed [OF wf] keys_fold_completed [OF wf'] sets)
  moreover have "getitem (fold_completed [] rs') w = getitem (fold_completed [] rs) w"
    by (simp add: getitem_fold_completed [OF wf] getitem_fold_completed [OF wf']
          sum_list_perm [OF pc])
  ultimately show "map_of (fold_completed [] rs') w = map_of (fold_completed [] rs) w"
    by (simp add: map_of_getitem)
qed

lemma mset_as_completed: "mset (as_completed sched xs) = mset xs"
proof (induction sched xs rule: as_completed.induct)
  case (3 k sched x xs)
  let ?l = "x # xs" and ?i = "k mod length (x # xs)"
  have i: "?i < length ?l" by simp
  have "mset ?l = mset (take ?i ?l @ ?l ! ?i # drop (Suc ?i) ?l)"
    using id_take_nth_drop [OF i] by simp
  then have "mset ?l = add_mset (?l ! ?i) (mset (take ?i ?l @ drop (Suc ?i) ?l))"
    by simp
  with "3.IH" show ?case by (simp del: length_Cons take_Suc_Cons drop_Suc_Cons nth_Cons_Suc)
qed simp_all

lemma page_counts_sound:
  "c \<in> set (page_counts rs) \<Longrightarrow> \<exists>lg. Inr (lg, c) \<in> set rs"
  by (induction rs rule: page_counts.induct) auto

lemma crawl_results:
  assumes "r \<in> set (crawl U hp w urls)"
  shows "\<exists>i url. r = (process_url U hp url (page_get w i url), url)"
proof -
  from assms have "r \<in># mset (crawl U hp w urls)" by simp
  then have "r \<in> set (map (\<lambda>(i, url). (process_url U hp url (page_get w i url), url))
                         (enumerate 0 urls))"
    unfolding crawl_def mset_as_completed by simp
  then show ?thesis by auto
qed

lemma crawl_results_wf:
  assumes "c \<in> set (page_counts (map fst (take k (crawl U hp w urls))))"
  shows "wf_counter c \<and> positive c"
proof -
  from assms obtain lg where "Inr (lg, c) \<in> set (map fst (take k (crawl U hp w urls)))"
    by (blast dest: page_counts_sound)
  then obtain url0 where "(Inr (lg, c), url0) \<in> set (take k (crawl U hp w urls))" by auto
  then have "(Inr (lg, c), url0) \<in> set (crawl U hp w urls)" by (rule in_set_takeD)
  then obtain i url where "Inr (lg, c) = process_url U hp url (page_get w i url)"
    by (blast dest: crawl_results)
  then show ?thesis by (metis process_url_wf process_url_positive)
qed

lemma crawl_perm:
  "mset (crawl U hp (w\<lparr>completion := s\<rparr>) urls) = mset (crawl U hp (w\<lparr>completion := s'\<rparr>) urls)"
  by (simp add: crawl_def mset_as_completed)

lemma crawl_all_wf: "list_all wf_counter (page_counts (map fst (crawl U hp w urls)))"
  using crawl_results_wf [of _ "length (crawl U hp w urls)" U hp w urls]
  by (simp add: list_all_iff)

lemma total_count_incr: "total_count (incr c w) = total_count c + 1"
  unfolding incr_def total_count_def
  by (induction c) auto

lemma fold_incr_total:
  "total_count (fold (\<lambda>word c. incr c word) ws c) = total_count c + int (length ws)"
  by (induction ws arbitrary: c) (simp_all add: total_count_incr)

lemma counter_update_Nil: "counter_update c [] = c"
  by (simp add: counter_update_def dict_update_def)

lemma count_sentences_none:
  "list_all (\<lambda>sentence. findall U sentence = []) ss
     \<Longrightarrow> fold (\<lambda>sentence c. count_words c (findall U sentence)) ss c = c"
  by (induction ss arbitrary: c) (simp_all add: count_words_def)

lemma most_common_sorted: "sorted_wrt (\<lambda>a b. snd b \<le> snd a) (most_common c)"
proof -
  have "sorted (map (\<lambda>(w, n). - n) (most_common c))"
    unfolding most_common_def by (rule sorted_sort_key)
  then have "sorted_wrt (\<lambda>a b. (case a of (w, n) \<Rightarrow> - n) \<le> (case b of (w, n) \<Rightarrow> - n)) (most_common c)"
    by (simp add: sorted_map)
  then show ?thesis
    by (rule sorted_wrt_mono_rel [rotated]) (auto split: prod.splits)
qed

lemma most_common_stable:
  "filter (\<lambda>e. snd e = k) (most_common c) = filter (\<lambda>e. snd e = k) c"
proof -
  have eq: "(\<lambda>e :: ustr \<times> int. snd e = k) = (\<lambda>e. (case e of (w, n) \<Rightarrow> - n) = - k)"
    by (auto simp: fun_eq_iff)
  show ?thesis unfolding eq most_common_def by (rule sort_key_stable)
qed

lemma progress_log_no_write_error: "\<not> list_ex is_write_error (progress_log n i xs)"
  by (induction n i xs rule: progress_log.induct) (simp_all add: is_write_error_def)

lemma findall_below_iter:
  "tag root \<noteq> t \<Longrightarrow> findall_below root t = filter (\<lambda>e. tag e = t) (iter root)"
  by (cases root) (simp add: findall_below_def)

lemma loc_urls_map_strip:
  "loc_urls locs
     = map strip (concat (map (\<lambda>e. case elem_text e of
                                     None \<Rightarrow> []
                                   | Some t \<Rightarrow> if t = [] then [] else [t]) locs))"
  by (induction locs) (auto simp: loc_urls_def split: option.splits)

lemma strip_eq_Nil: "strip t = [] \<longleftrightarrow> list_all isspace t"
proof
  assume "strip t = []"
  then have a: "\<forall>x \<in> set (dropWhile isspace t). isspace x"
    by (simp add: strip_def dropWhile_eq_Nil_conv)
  have "dropWhile isspace t = []"
  proof (rule ccontr)
    assume ne: "dropWhile isspace t \<noteq> []"
    then have "\<not> isspace (hd (dropWhile isspace t))" by (rule hd_dropWhile)
    moreover from ne have "hd (dropWhile isspace t) \<in> set (dropWhile isspace t)" by simp
    ultimately show False using a by blast
  qed
  then show "list_all isspace t" by (simp add: dropWhile_eq_Nil_conv list_all_iff)
next
  assume "list_all isspace t"
  then have d: "dropWhile isspace t = []" by (simp add: dropWhile_eq_Nil_conv list_all_iff)
  show "strip t = []" unfolding strip_def d by simp
qed

section \<open>Sitemaps, the report and the exit status\<close>

lemma get_urls_caught_iff:
  "(\<exists>msg. get_urls_from_sitemap fromstring sitemap_url got = Inr ([(ERROR, msg)], []))
     \<longleftrightarrow> sitemap_caught fromstring got"
  by (auto simp: get_urls_from_sitemap_def sitemap_caught_def Let_def
           split: sum.splits response.splits if_splits)

lemma get_urls_escapes_iff:
  "(\<exists>e. get_urls_from_sitemap fromstring sitemap_url got = Inl e)
     \<longleftrightarrow> sitemap_escapes fromstring got"
  by (auto simp: get_urls_from_sitemap_def sitemap_escapes_def Let_def
           split: sum.splits response.splits if_splits)

declare decimal.simps [simp del]

lemma decimal_small: "n < 10 \<Longrightarrow> decimal n = [48 + n]"
  by (subst decimal.simps) simp

lemma decimal_large: "\<not> n < 10 \<Longrightarrow> decimal n = decimal (n div 10) @ [48 + n mod 10]"
  by (subst decimal.simps) simp

lemma decimal_not_Nil: "decimal n \<noteq> []"
  by (cases "n < 10") (simp_all add: decimal_small decimal_large)

lemma decimal_value_decimal: "decimal_value (decimal n) = n"
proof (induction n rule: decimal.induct)
  case (1 n)
  show ?case
  proof (cases "n < 10")
    case True
    then show ?thesis by (simp add: decimal_small decimal_value_def)
  next
    case False
    with "1.IH" have "decimal_value (decimal (n div 10)) = n div 10" by simp
    with False show ?thesis by (simp add: decimal_large decimal_value_def)
  qed
qed

lemma decimal_digits: "list_all ascii_digit (decimal n)"
proof (induction n rule: decimal.induct)
  case (1 n)
  show ?case
  proof (cases "n < 10")
    case True
    then show ?thesis by (simp add: decimal_small ascii_digit_def)
  next
    case False
    have "n mod 10 < 10" by simp
    then have "ascii_digit (48 + n mod 10)" unfolding ascii_digit_def by arith
    with False "1.IH" show ?thesis by (simp add: decimal_large)
  qed
qed

lemma decimal_leading: "(hd (decimal n) = 48) = (n = 0)"
proof (induction n rule: decimal.induct)
  case (1 n)
  show ?case
  proof (cases "n < 10")
    case True
    then show ?thesis by (simp add: decimal_small)
  next
    case False
    then have "n div 10 \<noteq> 0" by simp
    with "1.IH" False have "hd (decimal (n div 10)) \<noteq> 48" by simp
    with False show ?thesis by (simp add: decimal_large decimal_not_Nil)
  qed
qed

lemma fold_write:
  "fold (\<lambda>(word, count) f. f @ g word count) xs f = f @ concat (map (\<lambda>(word, count). g word count) xs)"
  by (induction xs arbitrary: f) (auto split: prod.splits)

lemma report_concat:
  "report c = concat (map (\<lambda>(word, count). word @ [9] @ str_int count @ [10]) (most_common c))"
  unfolding report_def write_lines_def
  using fold_write [of "\<lambda>word count. word @ [9] @ str_int count @ [10]" "most_common c" "[]"]
  by simp

lemma get_urls_no_write_error:
  "get_urls_from_sitemap fromstring sm got = Inr (l, urls) \<Longrightarrow> \<not> list_ex is_write_error l"
  by (auto simp: get_urls_from_sitemap_def is_write_error_def Let_def
           split: sum.splits response.splits if_splits)

lemma read_sitemaps_no_write_error:
  "\<not> list_ex is_write_error lg \<Longrightarrow>
   \<not> list_ex is_write_error (fst (read_sitemaps fromstring session_get sms lg us))"
proof (induction sms arbitrary: lg us)
  case Nil
  then show ?case by simp
next
  case (Cons sm sms)
  show ?case
  proof (cases "get_urls_from_sitemap fromstring sm (session_get sm)")
    case (Inl e)
    with Cons.prems show ?thesis by simp
  next
    case (Inr r)
    obtain l urls where r: "r = (l, urls)" by (cases r)
    with Inr have "\<not> list_ex is_write_error l" by (auto dest: get_urls_no_write_error)
    with Cons.prems have "\<not> list_ex is_write_error (lg @ l)" by simp
    from Cons.IH [OF this] Inr r show ?thesis by simp
  qed
qed

lemma read_sitemaps_raises_iff:
  "(\<exists>e. snd (read_sitemaps fromstring session_get sms lg us) = Inl e)
     \<longleftrightarrow> list_ex (\<lambda>sm. sitemap_escapes fromstring (session_get sm)) sms"
proof (induction sms arbitrary: lg us)
  case Nil
  then show ?case by simp
next
  case (Cons sm sms)
  show ?case
  proof (cases "get_urls_from_sitemap fromstring sm (session_get sm)")
    case (Inl e)
    then have "sitemap_escapes fromstring (session_get sm)"
      using get_urls_escapes_iff [of fromstring sm "session_get sm"] by blast
    with Inl show ?thesis by simp
  next
    case (Inr r)
    obtain l urls where r: "r = (l, urls)" by (cases r)
    from Inr have "\<not> sitemap_escapes fromstring (session_get sm)"
      using get_urls_escapes_iff [of fromstring sm "session_get sm"] by auto
    with Inr r Cons.IH [of "lg @ l" "us @ urls"] show ?thesis by simp
  qed
qed

section \<open>Tokens and sentences\<close>

text \<open>
  The equations of the two scanning loops are applied by hand from here on.
\<close>

declare findall_from.simps [simp del] re_split_from.simps [simp del]

lemma ascii_letter_is_word: "ascii_letter c \<Longrightarrow> is_word U c"
  by (auto simp: is_word_def ascii_letter_def ascii_upper_def ascii_lower_def)

lemma is_token_letters:
  assumes "is_token U s i j" and "i \<le> k" and "k < j"
  shows "ascii_letter (s ! k)"
proof (cases "k = i")
  case True
  with assms(1) show ?thesis by (simp add: is_token_def ascii_letter_def)
next
  case False
  with assms(2,3) have "k \<in> set [i + 1 ..< j]" by simp
  with assms(1) show ?thesis by (simp add: is_token_def list_all_iff)
qed

lemma inner_not_boundary:
  assumes "0 < i" and "i < length s" and "is_word U (s ! (i - 1))" and "is_word U (s ! i)"
  shows "\<not> word_boundary U s i"
  using assms by (simp add: word_boundary_def)

lemma is_token_inside_no_boundary:
  assumes "is_token U s i j" and "i < k" and "k < j"
  shows "\<not> word_boundary U s k"
proof (rule inner_not_boundary)
  from assms show "0 < k" by simp
  from assms show "k < length s" by (simp add: is_token_def)
  from assms have "i \<le> k - 1" "k - 1 < j" by simp_all
  with assms(1) show "is_word U (s ! (k - 1))"
    by (blast intro: ascii_letter_is_word is_token_letters)
  from assms show "is_word U (s ! k)"
    by (blast intro: ascii_letter_is_word is_token_letters less_imp_le)
qed

lemma is_token_unique:
  assumes "is_token U s i j" and "is_token U s i j'"
  shows "j = j'"
proof (rule ccontr)
  assume "j \<noteq> j'"
  then consider "j < j'" | "j' < j" by arith
  then show False
  proof cases
    case 1
    from assms(1) have "i < j" by (simp add: is_token_def)
    from is_token_inside_no_boundary [OF assms(2) this 1] assms(1) show False
      by (simp add: is_token_def)
  next
    case 2
    from assms(2) have "i < j'" by (simp add: is_token_def)
    from is_token_inside_no_boundary [OF assms(1) this 2] assms(2) show False
      by (simp add: is_token_def)
  qed
qed

lemma is_token_no_overlap:
  assumes "is_token U s i j" and "i < i'" and "i' < j"
  shows "\<not> is_token U s i' j'"
  using is_token_inside_no_boundary [OF assms] by (simp add: is_token_def)

lemma find_SomeD: "find P xs = Some x \<Longrightarrow> x \<in> set xs \<and> P x"
  by (induction xs) (auto split: if_splits)

lemma takeWhile_all:
  assumes "j < length (takeWhile P xs)"
  shows "P (xs ! j)"
proof -
  from assms have "takeWhile P xs ! j \<in> set (takeWhile P xs)" by (rule nth_mem)
  then have "P (takeWhile P xs ! j)" by (auto dest: set_takeWhileD)
  with assms show ?thesis by (simp add: takeWhile_nth)
qed

lemma takeWhile_long:
  assumes "k \<le> length xs" and "\<forall>j < k. P (xs ! j)"
  shows "k \<le> length (takeWhile P xs)"
proof (rule ccontr)
  assume "\<not> k \<le> length (takeWhile P xs)"
  then have lt: "length (takeWhile P xs) < k" by simp
  with assms(1) have "length (takeWhile P xs) < length xs" by simp
  then have "\<not> P (xs ! length (takeWhile P xs))" by (rule nth_length_takeWhile)
  with assms(2) lt show False by simp
qed

lemma token_match_is_token:
  assumes "token_match U s pos = Some e"
  shows "is_token U s pos e"
proof -
  let ?xs = "drop (pos + 1) s"
  let ?n = "length (takeWhile ascii_letter ?xs)"
  from assms have b: "word_boundary U s pos" and lt: "pos < length s"
    and up: "ascii_upper (s ! pos)"
    by (simp_all add: token_match_def split: if_splits)
  from assms b lt up obtain k
    where f: "find (\<lambda>k. word_boundary U s (pos + 1 + k)) (rev [2 ..< ?n + 1]) = Some k"
      and e: "e = pos + 1 + k"
    by (auto simp: token_match_def)
  from find_SomeD [OF f] have k: "2 \<le> k" "k \<le> ?n" and be: "word_boundary U s (pos + 1 + k)"
    by auto
  have "?n \<le> length ?xs" by (rule length_takeWhile_le)
  with k have le: "pos + 1 + k \<le> length s" by simp
  have "ascii_letter (s ! i)" if "i \<in> set [pos + 1 ..< e]" for i
  proof -
    from that e have "pos + 1 \<le> i" "i - (pos + 1) < k" by auto
    with k have "i - (pos + 1) < ?n" by simp
    then have "ascii_letter (?xs ! (i - (pos + 1)))" by (rule takeWhile_all)
    with \<open>pos + 1 \<le> i\<close> le that e show ?thesis by simp
  qed
  then have "list_all (\<lambda>i. ascii_letter (s ! i)) [pos + 1 ..< e]"
    unfolding list_all_iff by blast
  with b up be e k le show ?thesis by (simp add: is_token_def)
qed

lemma is_token_token_match:
  assumes "is_token U s pos e"
  shows "token_match U s pos = Some e"
proof -
  let ?xs = "drop (pos + 1) s"
  let ?n = "length (takeWhile ascii_letter ?xs)"
  let ?k = "e - (pos + 1)"
  from assms have ge: "pos + 3 \<le> e" and le: "e \<le> length s" and b: "word_boundary U s pos"
    and be: "word_boundary U s e" and up: "ascii_upper (s ! pos)"
    by (simp_all add: is_token_def)
  have "?k \<le> length ?xs" using ge le by simp
  moreover have "\<forall>j < ?k. ascii_letter (?xs ! j)"
  proof (intro allI impI)
    fix j assume "j < ?k"
    with ge le have "pos \<le> pos + 1 + j" "pos + 1 + j < e" by simp_all
    from is_token_letters [OF assms this] le \<open>pos + 1 + j < e\<close>
    show "ascii_letter (?xs ! j)" by (simp add: add.commute)
  qed
  ultimately have kn: "?k \<le> ?n" by (rule takeWhile_long)
  have nk: "?n \<le> ?k"
  proof (rule ccontr)
    assume "\<not> ?n \<le> ?k"
    then have lt: "?k < ?n" by simp
    then have "ascii_letter (?xs ! ?k)" by (rule takeWhile_all)
    moreover have "?n \<le> length ?xs" by (rule length_takeWhile_le)
    ultimately have el: "e < length s" and "ascii_letter (s ! e)" using lt ge by simp_all
    then have "is_word U (s ! e)" by (simp add: ascii_letter_is_word)
    moreover have "is_word U (s ! (e - 1))"
      using is_token_letters [OF assms, of "e - 1"] ge by (simp add: ascii_letter_is_word)
    ultimately have "\<not> word_boundary U s e" using el ge by (intro inner_not_boundary) simp_all
    with be show False by simp
  qed
  from kn nk have n: "?n = ?k" by simp
  with ge have "2 \<le> ?n" by simp
  then have "[2 ..< ?n + 1] = [2 ..< ?n] @ [?n]" by simp
  then have "rev [2 ..< ?n + 1] = ?n # rev [2 ..< ?n]" by simp
  moreover have "word_boundary U s (pos + 1 + ?n)" using n be ge by simp
  ultimately have "find (\<lambda>k. word_boundary U s (pos + 1 + k)) (rev [2 ..< ?n + 1]) = Some ?n"
    by simp
  moreover have "pos < length s" using ge le by simp
  moreover have "pos + 1 + ?n = e" using n ge by simp
  ultimately show ?thesis using b up by (simp add: token_match_def)
qed

lemma token_match_iff: "token_match U s pos = Some e \<longleftrightarrow> is_token U s pos e"
  by (blast intro: token_match_is_token is_token_token_match)

lemma findall_from_end: "length s \<le> pos \<Longrightarrow> findall_from U s pos = []"
  by (subst findall_from.simps) simp

lemma findall_from_hit:
  "pos < length s \<Longrightarrow> token_match U s pos = Some e
     \<Longrightarrow> findall_from U s pos = slice s pos e # findall_from U s e"
  by (subst findall_from.simps) simp

lemma findall_from_miss:
  "pos < length s \<Longrightarrow> token_match U s pos = None
     \<Longrightarrow> findall_from U s pos = findall_from U s (pos + 1)"
  by (subst findall_from.simps) simp

lemma tokens_from_end: "length s \<le> pos \<Longrightarrow> tokens_from U s pos = []"
  by (simp add: tokens_from_def)

lemma tokens_from_step:
  "pos < length s \<Longrightarrow>
   tokens_from U s pos
     = map (\<lambda>j. slice s pos j) (filter (is_token U s pos) [pos ..< length s + 1])
       @ tokens_from U s (pos + 1)"
  by (simp add: tokens_from_def upt_conv_Cons del: upt_Suc)

lemma filter_none: "(\<And>x. x \<in> set xs \<Longrightarrow> \<not> P x) \<Longrightarrow> filter P xs = []"
  by (induction xs) auto

lemma filter_only:
  assumes "distinct xs" and "e \<in> set xs" and "P e" and "\<And>x. P x \<Longrightarrow> x = e"
  shows "filter P xs = [e]"
  using assms(1,2)
proof (induction xs)
  case Nil
  then show ?case by simp
next
  case (Cons x xs)
  show ?case
  proof (cases "x = e")
    case True
    with Cons.prems have "e \<notin> set xs" by simp
    with assms(4) have "filter P xs = []" by (intro filter_none) auto
    with True assms(3) show ?thesis by simp
  next
    case False
    with assms(4) have "\<not> P x" by auto
    with False Cons show ?thesis by simp
  qed
qed

lemma tokens_from_skip:
  "\<forall>i j. a \<le> i \<and> i < b \<longrightarrow> \<not> is_token U s i j \<Longrightarrow> a \<le> b \<Longrightarrow> b \<le> length s
     \<Longrightarrow> tokens_from U s a = tokens_from U s b"
proof (induction "b - a" arbitrary: a)
  case 0
  then show ?case by simp
next
  case (Suc n)
  then have lt: "a < length s" and ab: "a < b" by simp_all
  have "\<not> is_token U s a j" for j using Suc.prems(1) ab by simp
  then have none: "filter (is_token U s a) [a ..< length s + 1] = []"
    by (intro filter_none)
  have "tokens_from U s a = tokens_from U s (a + 1)"
    using tokens_from_step [OF lt] none by simp
  also have "\<dots> = tokens_from U s b"
    using Suc.hyps(1) [of "a + 1"] Suc.hyps(2) Suc.prems ab by simp
  finally show ?case .
qed

lemma findall_from_tokens_from: "findall_from U s pos = tokens_from U s pos"
proof (induction U s pos rule: findall_from.induct)
  case (1 U s pos)
  show ?case
  proof (cases "length s \<le> pos")
    case True
    then show ?thesis by (simp add: findall_from_end tokens_from_end)
  next
    case False
    then have lt: "pos < length s" by simp
    show ?thesis
    proof (cases "token_match U s pos")
      case None
      then have "\<not> is_token U s pos j" for j by (simp add: token_match_iff [symmetric])
      then have "filter (is_token U s pos) [pos ..< length s + 1] = []"
        by (intro filter_none)
      with tokens_from_step [OF lt]
      have "tokens_from U s pos = tokens_from U s (pos + 1)" by simp
      with "1.IH"(1) [OF False None] findall_from_miss [OF lt None] show ?thesis by simp
    next
      case (Some e)
      then have t: "is_token U s pos e" by (simp add: token_match_iff)
      then have e: "pos + 3 \<le> e" "e \<le> length s" by (simp_all add: is_token_def)
      have "filter (is_token U s pos) [pos ..< length s + 1] = [e]"
      proof (rule filter_only)
        show "distinct [pos ..< length s + 1]" by simp
        from e show "e \<in> set [pos ..< length s + 1]" by (simp del: upt_Suc)
        from t show "is_token U s pos e" .
        show "x = e" if "is_token U s pos x" for x using that t by (rule is_token_unique)
      qed
      with tokens_from_step [OF lt]
      have "tokens_from U s pos = slice s pos e # tokens_from U s (pos + 1)" by simp
      also have "tokens_from U s (pos + 1) = tokens_from U s e"
      proof (rule tokens_from_skip)
        show "\<forall>i j. pos + 1 \<le> i \<and> i < e \<longrightarrow> \<not> is_token U s i j"
          using is_token_no_overlap [OF t] by simp
        from e show "pos + 1 \<le> e" "e \<le> length s" by simp_all
      qed
      finally show ?thesis
        using "1.IH"(2) [OF False Some] findall_from_hit [OF lt Some] by simp
    qed
  qed
qed

lemma is_token_bounds: "is_token U s i j \<Longrightarrow> i < length s \<and> i \<le> j \<and> j < length s + 1"
  by (simp add: is_token_def)

lemma in_tokens_from:
  "w \<in> set (tokens_from U s pos) \<longleftrightarrow> (\<exists>i j. pos \<le> i \<and> is_token U s i j \<and> w = slice s i j)"
proof
  assume "w \<in> set (tokens_from U s pos)"
  then obtain i j where "pos \<le> i" "is_token U s i j" "w = slice s i j"
    unfolding tokens_from_def by (auto simp del: upt_Suc)
  then show "\<exists>i j. pos \<le> i \<and> is_token U s i j \<and> w = slice s i j" by blast
next
  assume "\<exists>i j. pos \<le> i \<and> is_token U s i j \<and> w = slice s i j"
  then obtain i j where ij: "pos \<le> i" "is_token U s i j" "w = slice s i j" by blast
  from is_token_bounds [OF ij(2)] ij(1) have "i \<in> set [pos ..< length s]"
    and "j \<in> set (filter (is_token U s i) [i ..< length s + 1])"
    using ij(2) by (simp_all del: upt_Suc)
  with ij(3) show "w \<in> set (tokens_from U s pos)"
    unfolding tokens_from_def by (auto simp del: upt_Suc)
qed

lemma length_slice: "b \<le> length s \<Longrightarrow> length (slice s a b) = b - a"
  by (simp add: slice_def)

lemma nth_slice: "b \<le> length s \<Longrightarrow> k < b - a \<Longrightarrow> slice s a b ! k = s ! (a + k)"
  by (simp add: slice_def)

lemma token_shape:
  assumes "is_token U s i j"
  shows "3 \<le> length (slice s i j) \<and> ascii_upper (hd (slice s i j))
         \<and> list_all ascii_letter (slice s i j)"
proof -
  from assms have j: "i + 3 \<le> j" "j \<le> length s" and up: "ascii_upper (s ! i)"
    by (simp_all add: is_token_def)
  then have len: "length (slice s i j) = j - i" by (simp add: length_slice)
  with j have ne: "slice s i j \<noteq> []" by auto
  have "hd (slice s i j) = slice s i j ! 0" using ne by (simp add: hd_conv_nth)
  also have "\<dots> = s ! i" using j nth_slice [of j s 0 i] by simp
  finally have "ascii_upper (hd (slice s i j))" using up by simp
  moreover have "ascii_letter c" if "c \<in> set (slice s i j)" for c
  proof -
    from that len obtain k where k: "k < j - i" "c = slice s i j ! k"
      by (auto simp: in_set_conv_nth)
    with j have "c = s ! (i + k)" by (simp add: nth_slice)
    with is_token_letters [OF assms, of "i + k"] k show ?thesis by simp
  qed
  ultimately show ?thesis using len j by (simp add: list_all_iff)
qed

lemma token_maximal:
  assumes "is_token U s i j"
  shows "(i = 0 \<or> \<not> is_word U (s ! (i - 1))) \<and> (j = length s \<or> \<not> is_word U (s ! j))"
proof -
  from assms have j: "i + 3 \<le> j" "j \<le> length s" and bi: "word_boundary U s i"
    and bj: "word_boundary U s j"
    by (simp_all add: is_token_def)
  have "is_word U (s ! i)" using is_token_letters [OF assms, of i] j
    by (simp add: ascii_letter_is_word)
  moreover have "is_word U (s ! (j - 1))" using is_token_letters [OF assms, of "j - 1"] j
    by (simp add: ascii_letter_is_word)
  ultimately show ?thesis using bi bj j by (auto simp: word_boundary_def)
qed


lemma all_strings_extract_all:
  "s \<in> set (all_strings (extract_all names soup)) \<longleftrightarrow> occurs_outside names s soup"
proof (induction names soup rule: extract_all.induct)
  case (1 names n cs)
  show ?case
  proof
    assume "s \<in> set (all_strings (extract_all names (Tag n cs)))"
    then obtain c where c: "c \<in> set cs" "\<not> named names c"
        "s \<in> set (all_strings (extract_all names c))"
      by auto
    with "1.IH" [of c] have "occurs_outside names s c" by simp
    with c show "occurs_outside names s (Tag n cs)" by (blast intro: below)
  next
    assume "occurs_outside names s (Tag n cs)"
    then obtain c where c: "c \<in> set cs" "\<not> named names c" "occurs_outside names s c"
      by (auto elim: occurs_outside.cases)
    with "1.IH" [of c] have "s \<in> set (all_strings (extract_all names c))" by simp
    with c show "s \<in> set (all_strings (extract_all names (Tag n cs)))" by auto
  qed
next
  case (2 names s')
  show ?case by (auto intro: here elim: occurs_outside.cases)
next
  case (3 names s')
  show ?case by (auto elim: occurs_outside.cases)
qed

lemma sublist_slice: "sublist (slice s a b) s"
  unfolding slice_def by (rule sublist_order.order_trans [OF sublist_take sublist_drop])

lemma re_split_from_sublist: "x \<in> set (re_split_from s start pos) \<Longrightarrow> sublist x s"
proof (induction s start pos rule: re_split_from.induct)
  case (1 s start pos)
  show ?case
  proof (cases "length s \<le> pos")
    case True
    with "1.prems" show ?thesis
      by (subst (asm) re_split_from.simps) (simp add: sublist_slice)
  next
    case False
    show ?thesis
    proof (cases "split_match s pos")
      case None
      with False "1.prems" have "x \<in> set (re_split_from s start (pos + 1))"
        by (subst (asm) re_split_from.simps) simp
      with "1.IH"(1) [OF False None] show ?thesis by simp
    next
      case (Some e)
      with False "1.prems" have "x = slice s start pos \<or> x \<in> set (re_split_from s e e)"
        by (subst (asm) re_split_from.simps) simp
      with "1.IH"(2) [OF False Some] show ?thesis by (auto simp: sublist_slice)
    qed
  qed
qed

lemma re_split_sublist: "x \<in> set (re_split s) \<Longrightarrow> sublist x s"
  unfolding re_split_def by (rule re_split_from_sublist)

lemma sublist_join:
  assumes "sublist w (join [c] xs)" and "w \<noteq> []" and "c \<notin> set w"
  shows "\<exists>x \<in> set xs. sublist w x"
  using assms
proof (induction "[c]" xs rule: join.induct)
  case 1
  then show ?case by simp
next
  case (2 x)
  then show ?case by simp
next
  case (3 x y ys)
  from "3.prems"(1) have "sublist w (x @ c # join [c] (y # ys))" by simp
  then consider "sublist w x" | "sublist w (c # join [c] (y # ys))"
    | w1 w2 where "w = w1 @ w2" "suffix w1 x" "prefix w2 (c # join [c] (y # ys))"
    unfolding sublist_append by blast
  then show ?case
  proof cases
    case 1
    then show ?thesis by auto
  next
    case 2
    then have "prefix w (c # join [c] (y # ys)) \<or> sublist w (join [c] (y # ys))"
      by (simp add: sublist_Cons_right)
    moreover have "\<not> prefix w (c # join [c] (y # ys))"
      using "3.prems"(2,3) by (cases w) auto
    ultimately have "sublist w (join [c] (y # ys))" by simp
    with "3.hyps" "3.prems"(2,3) show ?thesis by auto
  next
    case 3
    have "w2 = []"
    proof (cases w2)
      case (Cons a as)
      with 3(3) have "a = c" by simp
      with Cons 3(1) "3.prems"(3) show ?thesis by simp
    qed simp
    with 3 have "suffix w x" by simp
    then show ?thesis by auto
  qed
qed


lemma keys_count_words: "keys (count_words c ws) \<subseteq> keys c \<union> set ws"
  using set_drop_subset [of 1 ws] by (auto simp: count_words_def fold_incr_keys)

lemma keys_fold_count_words:
  "keys (fold (\<lambda>sentence c. count_words c (f sentence)) ss c)
     \<subseteq> keys c \<union> (\<Union>sentence \<in> set ss. set (f sentence))"
proof (induction ss arbitrary: c)
  case Nil
  then show ?case by simp
next
  case (Cons a ss)
  from Cons.IH [of "count_words c (f a)"] keys_count_words [of c "f a"]
  show ?case by auto
qed

lemma keys_count_text:
  assumes "w \<in> keys (count_text U t)"
  shows "\<exists>sentence \<in> set (re_split t). w \<in> set (findall U sentence)"
  using assms keys_fold_count_words [of "findall U" "re_split t" "[]"]
  by (auto simp: count_text_def count_sentences_def keys_Nil)

lemma findall_token:
  assumes "w \<in> set (findall U s)"
  shows "sublist w s \<and> w \<noteq> [] \<and> 32 \<notin> set w"
proof -
  from assms obtain i j where t: "is_token U s i j" and w: "w = slice s i j"
    unfolding findall_def findall_from_tokens_from in_tokens_from by blast
  from token_shape [OF t] w have "3 \<le> length w" and l: "list_all ascii_letter w" by simp_all
  then have "w \<noteq> []" by auto
  moreover have "32 \<notin> set w"
  proof
    assume "32 \<in> set w"
    with l have "ascii_letter 32" by (simp add: list_all_iff)
    then show False by (simp add: ascii_letter_def ascii_upper_def ascii_lower_def)
  qed
  ultimately show ?thesis using w by (simp add: sublist_slice)
qed

lemma counted_word_in_some_string:
  assumes "w \<in> keys (count_text U (get_text [32] soup))"
  shows "\<exists>x \<in> set (all_strings soup). sublist w x"
proof -
  from keys_count_text [OF assms] obtain sentence
    where s: "sentence \<in> set (re_split (get_text [32] soup))" and w: "w \<in> set (findall U sentence)"
    by blast
  from findall_token [OF w] have ws: "sublist w sentence" and ne: "w \<noteq> []" and sp: "32 \<notin> set w"
    by simp_all
  from s have "sublist sentence (get_text [32] soup)" by (rule re_split_sublist)
  with ws have "sublist w (join [32] (all_strings soup))"
    unfolding get_text_def by (rule sublist_order.order_trans)
  from sublist_join [OF this ne sp] show ?thesis .
qed

section \<open>The claims\<close>

text \<open>
  C1. The loop of \<open>main\<close> folds the result of every completed page into
  \<open>total_counter\<close> with \<open>Counter.update\<close>. For page counters that are dictionaries
  (no key twice), the count of every word in the total is the sum of its counts in the
  pages; merging the same results in another order gives the same dictionary; and the
  total of a crawl is the same dictionary whatever the order in which the futures
  complete.
\<close>

theorem total_counter_is_sum_of_pages:
  assumes "list_all wf_counter (page_counts rs)"
  shows "getitem (fold_completed [] rs) word = (\<Sum>c\<leftarrow>page_counts rs. getitem c word)
    \<and> (mset rs' = mset rs \<longrightarrow> map_of (fold_completed [] rs') = map_of (fold_completed [] rs))
    \<and> map_of (fold_completed [] (map fst (crawl U html_parser (w\<lparr>completion := s\<rparr>) all_urls)))
        = map_of (fold_completed [] (map fst (crawl U html_parser (w\<lparr>completion := s'\<rparr>) all_urls)))"
proof (intro conjI impI)
  from assms have wf: "\<forall>c \<in> set (page_counts rs). wf_counter c" by (simp add: list_all_iff)
  show "getitem (fold_completed [] rs) word = (\<Sum>c\<leftarrow>page_counts rs. getitem c word)"
    by (simp add: getitem_fold_completed [OF wf])
  show "map_of (fold_completed [] rs') = map_of (fold_completed [] rs)" if "mset rs' = mset rs"
    using wf that by (rule fold_completed_perm)
  let ?a = "map fst (crawl U html_parser (w\<lparr>completion := s\<rparr>) all_urls)"
  let ?b = "map fst (crawl U html_parser (w\<lparr>completion := s'\<rparr>) all_urls)"
  have "\<forall>c \<in> set (page_counts ?b). wf_counter c"
    using crawl_all_wf [of U html_parser "w\<lparr>completion := s'\<rparr>" all_urls]
    by (simp add: list_all_iff)
  moreover have "mset ?a = mset ?b"
    using crawl_perm [of U html_parser s w all_urls "s'"] by (metis mset_map)
  ultimately show "map_of (fold_completed [] ?a) = map_of (fold_completed [] ?b)"
    by (rule fold_completed_perm)
qed

theorem total_counter_is_sum_of_pages_witness:
  "list_all wf_counter
     (page_counts [Inr ([], [(str ''Rome'', 2)]), Inl (OtherException (str ''RuntimeError'') (str ''boom'')),
                   Inr ([], [(str ''Milan'', 1), (str ''Rome'', 3)])])
   \<and> getitem (fold_completed [] [Inr ([], [(str ''Rome'', 2)]), Inl (OtherException (str ''RuntimeError'') (str ''boom'')),
                   Inr ([], [(str ''Milan'', 1), (str ''Rome'', 3)])]) (str ''Rome'') = 5
   \<and> mset [Inr ([], [(str ''Milan'', 1), (str ''Rome'', 3)]), Inr ([], [(str ''Rome'', 2)]),
            Inl (OtherException (str ''RuntimeError'') (str ''boom''))]
       = mset ([Inr ([], [(str ''Rome'', 2)]), Inl (OtherException (str ''RuntimeError'') (str ''boom'')),
                Inr ([], [(str ''Milan'', 1), (str ''Rome'', 3)])] :: (exn + log \<times> counter) list)
   \<and> map_of (fold_completed [] [Inr ([], [(str ''Milan'', 1), (str ''Rome'', 3)]),
                                  Inr ([], [(str ''Rome'', 2)]), Inl (OtherException (str ''RuntimeError'') (str ''boom''))])
       = map_of (fold_completed [] [Inr ([], [(str ''Rome'', 2)]), Inl (OtherException (str ''RuntimeError'') (str ''boom'')),
                                     Inr ([], [(str ''Milan'', 1), (str ''Rome'', 3)])])"
proof -
  let ?rs = "[Inr ([], [(str ''Rome'', 2)]), Inl (OtherException (str ''RuntimeError'') (str ''boom'')),
              Inr ([], [(str ''Milan'', 1), (str ''Rome'', 3)])] :: (exn + log \<times> counter) list"
  let ?rs' = "[Inr ([], [(str ''Milan'', 1), (str ''Rome'', 3)]), Inr ([], [(str ''Rome'', 2)]),
               Inl (OtherException (str ''RuntimeError'') (str ''boom''))] :: (exn + log \<times> counter) list"
  have h: "list_all wf_counter (page_counts ?rs)" by (simp add: wf_counter_def)
  have m: "mset ?rs' = mset ?rs" by simp
  have s: "(\<Sum>c\<leftarrow>page_counts ?rs. getitem c (str ''Rome'')) = 5" by simp
  note t = total_counter_is_sum_of_pages [OF h, of "str ''Rome''" ?rs']
  have a: "getitem (fold_completed [] ?rs) (str ''Rome'') = 5"
    using t [THEN conjunct1] s by (rule trans)
  have b: "map_of (fold_completed [] ?rs') = map_of (fold_completed [] ?rs)"
    using t [THEN conjunct2, THEN conjunct1] m by (rule mp)
  from h a m b show ?thesis by (intro conjI)
qed

text \<open>
  C10. Every entry of a counter that \<open>process_url\<close> returns has a count above zero, and
  so has every entry of \<open>total_counter\<close> after any number \<open>k\<close> of merge steps of a
  crawl.
\<close>

theorem counts_are_positive:
  "(process_url U html_parser url got = Inr (lg, c) \<longrightarrow> positive c)
   \<and> positive (fold_completed [] (map fst (take k (crawl U html_parser w all_urls))))"
proof (intro conjI impI)
  show "positive c" if "process_url U html_parser url got = Inr (lg, c)"
    using that by (rule process_url_positive)
  have "\<forall>c \<in> set (page_counts (map fst (take k (crawl U html_parser w all_urls)))).
          wf_counter c \<and> positive c"
    using crawl_results_wf by blast
  with positive_Nil
  show "positive (fold_completed [] (map fst (take k (crawl U html_parser w all_urls))))"
    by (rule positive_fold_completed)
qed

theorem counts_are_positive_witness:
  "process_url (\<lambda>c. False)
     (\<lambda>body. Inr (Tag (str ''[document]'') [NavigableString body]))
     (str ''https://example.com/a'')
     (Inr (Response 200 [] (str ''Hello World. Quick Brown Fox jumps.'')))
   = Inr ([], [(str ''World'', 1), (str ''Brown'', 1), (str ''Fox'', 1)])
   \<and> positive [(str ''World'', 1), (str ''Brown'', 1), (str ''Fox'', 1)]"
proof -
  have h: "process_url (\<lambda>c. False)
     (\<lambda>body. Inr (Tag (str ''[document]'') [NavigableString body]))
     (str ''https://example.com/a'')
     (Inr (Response 200 [] (str ''Hello World. Quick Brown Fox jumps.'')))
   = Inr ([], [(str ''World'', 1), (str ''Brown'', 1), (str ''Fox'', 1)])"
    by code_simp
  from counts_are_positive [of "\<lambda>c. False"
      "\<lambda>body. Inr (Tag (str ''[document]'') [NavigableString body])"
      "str ''https://example.com/a''"
      "Inr (Response 200 [] (str ''Hello World. Quick Brown Fox jumps.''))"
      "[]" "[(str ''World'', 1), (str ''Brown'', 1), (str ''Fox'', 1)]"] h
  show ?thesis by blast
qed

text \<open>
  C2. In every sentence the first token that \<open>findall\<close> returns is not counted and every
  later token adds exactly 1 to the count of its word: a sentence with at most one token
  leaves the counter as it is, and one with \<open>N \<ge> 2\<close> tokens adds \<open>N - 1\<close> to the sum
  of the counts. The text "Hello World. Quick Brown Fox jumps." gives exactly
  World 1, Brown 1, Fox 1.
\<close>

theorem first_token_of_sentence_dropped:
  "getitem (count_words c (findall U sentence)) w
     = getitem c w + int (count_list (drop 1 (findall U sentence)) w)
   \<and> (length (findall U sentence) \<le> 1 \<longrightarrow> count_words c (findall U sentence) = c)
   \<and> (2 \<le> length (findall U sentence) \<longrightarrow>
        total_count (count_words c (findall U sentence))
          = total_count c + int (length (findall U sentence)) - 1)
   \<and> count_text U (str ''Hello World. Quick Brown Fox jumps.'')
       = [(str ''World'', 1), (str ''Brown'', 1), (str ''Fox'', 1)]"
proof (intro conjI impI)
  let ?ws = "findall U sentence"
  show "getitem (count_words c ?ws) w = getitem c w + int (count_list (drop 1 ?ws) w)"
    by (simp add: count_words_def fold_incr_getitem)
  show "count_words c ?ws = c" if "length ?ws \<le> 1"
    using that by (simp add: count_words_def)
  show "total_count (count_words c ?ws) = total_count c + int (length ?ws) - 1"
    if "2 \<le> length ?ws"
    using that by (simp add: count_words_def fold_incr_total)
  show "count_text U (str ''Hello World. Quick Brown Fox jumps.'')
       = [(str ''World'', 1), (str ''Brown'', 1), (str ''Fox'', 1)]"
    by code_simp
qed

theorem first_token_of_sentence_dropped_witness:
  "length (findall (\<lambda>c. False) (str ''Quick Brown Fox jumps.'')) = 3
   \<and> total_count (count_words [] (findall (\<lambda>c. False) (str ''Quick Brown Fox jumps.''))) = 2
   \<and> length (findall (\<lambda>c. False) (str ''Hello world.'')) = 1
   \<and> count_words [] (findall (\<lambda>c. False) (str ''Hello world.'')) = []"
proof -
  have n: "length (findall (\<lambda>c. False) (str ''Quick Brown Fox jumps.'')) = 3" by code_simp
  have m: "length (findall (\<lambda>c. False) (str ''Hello world.'')) = 1" by code_simp
  have z: "total_count [] = 0" by (simp add: total_count_def)
  note a = first_token_of_sentence_dropped [of "[]" "\<lambda>c. False" "str ''Quick Brown Fox jumps.''",
      THEN conjunct2, THEN conjunct2, THEN conjunct1]
  note b = first_token_of_sentence_dropped [of "[]" "\<lambda>c. False" "str ''Hello world.''",
      THEN conjunct2, THEN conjunct1]
  from a n z
  have "total_count (count_words [] (findall (\<lambda>c. False) (str ''Quick Brown Fox jumps.''))) = 2"
    by simp
  moreover from b m have "count_words [] (findall (\<lambda>c. False) (str ''Hello world.'')) = []"
    by simp
  ultimately show ?thesis using n m by (intro conjI)
qed

text \<open>
  C4, as stated, fails in two places. The sitemap of the specification's example, written
  there without a namespace declaration, parses to tags without a namespace, and the
  path asks for \<open>loc\<close> in the sitemap namespace: the result is empty. And the filter
  \<open>if loc.text\<close> tests the text before \<open>strip()\<close>: for a \<open>loc\<close> that holds two spaces
  the result holds one empty string.
\<close>

theorem unqualified_example_and_blank_loc:
  "get_urls_from_sitemap (parses_to unqualified_example_sitemap) (str ''s'')
     (Inr (Response 200 [] [])) = Inr ([(INFO, Trovate_URL 0 (str ''s''))], [])
   \<and> get_urls_from_sitemap (parses_to blank_loc_sitemap) (str ''s'')
     (Inr (Response 200 [] [])) = Inr ([(INFO, Trovate_URL 1 (str ''s''))], [[]])"
  by code_simp

text \<open>
  C4, amended. For a sitemap that is fetched and parsed, whose root is not itself a
  \<open>loc\<close> and in which no \<open>loc\<close> of the sitemap namespace has a text of whitespace
  only, \<open>get_urls_from_sitemap\<close> returns, in document order, the stripped text of every
  \<open>loc\<close> element of the sitemap namespace whose text is present and not empty, and no
  empty string. The example sitemap, with its tags in the sitemap namespace, gives
  exactly its two URLs.
\<close>

theorem sitemap_urls_in_document_order:
  assumes "got = Inr (Response status content body)"
    and "\<not> raise_for_status status"
    and "fromstring content = Inr root"
    and "tag root \<noteq> loc_tag"
    and "list_all (\<lambda>t. \<not> list_all isspace t) (loc_texts root)"
  shows "get_urls_from_sitemap fromstring sitemap_url got
           = Inr ([(INFO, Trovate_URL (length (loc_texts root)) sitemap_url)],
                  map strip (loc_texts root))
     \<and> list_all (\<lambda>url. url \<noteq> []) (map strip (loc_texts root))
     \<and> get_urls_from_sitemap (parses_to example_sitemap) sitemap_url
              (Inr (Response 200 content body))
         = Inr ([(INFO, Trovate_URL 2 sitemap_url)],
                [str ''https://example.com/a'', str ''https://example.com/b''])"
proof (intro conjI)
  show "get_urls_from_sitemap fromstring sitemap_url got
           = Inr ([(INFO, Trovate_URL (length (loc_texts root)) sitemap_url)],
                  map strip (loc_texts root))"
    using assms(1-4)
    by (simp add: get_urls_from_sitemap_def Let_def findall_below_iter loc_urls_map_strip
          loc_texts_def)
  from assms(5) show "list_all (\<lambda>url. url \<noteq> []) (map strip (loc_texts root))"
    by (simp add: list_all_iff strip_eq_Nil)
  have "loc_urls (findall_below example_sitemap loc_tag)
          = [str ''https://example.com/a'', str ''https://example.com/b'']"
    by code_simp
  moreover have "\<not> raise_for_status 200" by (simp add: raise_for_status_def)
  ultimately show "get_urls_from_sitemap (parses_to example_sitemap) sitemap_url
              (Inr (Response 200 content body))
         = Inr ([(INFO, Trovate_URL 2 sitemap_url)],
                [str ''https://example.com/a'', str ''https://example.com/b''])"
    by (simp add: get_urls_from_sitemap_def parses_to_def Let_def)
qed

theorem sitemap_urls_in_document_order_witness:
  "\<not> raise_for_status 200
   \<and> parses_to example_sitemap [] = Inr example_sitemap
   \<and> tag example_sitemap \<noteq> loc_tag
   \<and> list_all (\<lambda>t. \<not> list_all isspace t) (loc_texts example_sitemap)
   \<and> get_urls_from_sitemap (parses_to example_sitemap) (str ''s'') (Inr (Response 200 [] []))
       = Inr ([(INFO, Trovate_URL (length (loc_texts example_sitemap)) (str ''s''))],
              map strip (loc_texts example_sitemap))
   \<and> map strip (loc_texts example_sitemap)
       = [str ''https://example.com/a'', str ''https://example.com/b'']"
proof -
  have n: "\<not> raise_for_status 200" by (simp add: raise_for_status_def)
  have p: "parses_to example_sitemap [] = Inr example_sitemap" by (simp add: parses_to_def)
  have r: "tag example_sitemap \<noteq> loc_tag" by code_simp
  have l: "list_all (\<lambda>t. \<not> list_all isspace t) (loc_texts example_sitemap)" by code_simp
  have v: "map strip (loc_texts example_sitemap)
       = [str ''https://example.com/a'', str ''https://example.com/b'']" by code_simp
  note t = sitemap_urls_in_document_order [where fromstring = "parses_to example_sitemap"
      and content = "[]" and body = "[]" and status = 200 and sitemap_url = "str ''s''"
      and got = "Inr (Response 200 [] [])" and root = example_sitemap,
      OF refl n p r l, THEN conjunct1]
  from n p r l t v show ?thesis by (intro conjI)
qed


text \<open>
  C3. What \<open>findall\<close> returns for a sentence is exactly the list of its qualifying
  tokens from left to right: the substrings that start with an uppercase ASCII letter,
  go on with two or more ASCII letters and have a word boundary at each end. Every such
  substring has at least three characters, starts uppercase, holds ASCII letters only
  and cannot be extended: no word character stands before or after it.
\<close>

theorem findall_gives_the_tokens:
  "findall U sentence = tokens U sentence
   \<and> (is_token U sentence i j \<longrightarrow>
        3 \<le> length (slice sentence i j) \<and> ascii_upper (hd (slice sentence i j))
        \<and> list_all ascii_letter (slice sentence i j)
        \<and> (i = 0 \<or> \<not> is_word U (sentence ! (i - 1)))
        \<and> (j = length sentence \<or> \<not> is_word U (sentence ! j)))
   \<and> list_all (\<lambda>w. 3 \<le> length w \<and> ascii_upper (hd w) \<and> list_all ascii_letter w)
        (findall U sentence)"
proof (intro conjI impI)
  show eq: "findall U sentence = tokens U sentence"
    by (simp add: findall_def tokens_def findall_from_tokens_from)
  have "3 \<le> length w \<and> ascii_upper (hd w) \<and> list_all ascii_letter w"
    if "w \<in> set (findall U sentence)" for w
  proof -
    from that obtain i j where "is_token U sentence i j" "w = slice sentence i j"
      unfolding eq tokens_def in_tokens_from by blast
    with token_shape [of U sentence i j] show ?thesis by simp
  qed
  then show "list_all (\<lambda>w. 3 \<le> length w \<and> ascii_upper (hd w) \<and> list_all ascii_letter w)
          (findall U sentence)"
    unfolding list_all_iff by blast
qed (use token_shape token_maximal in blast)+

theorem findall_gives_the_tokens_witness:
  "is_token no_alnum (str ''Hello World.'') 6 11
   \<and> slice (str ''Hello World.'') 6 11 = str ''World''
   \<and> 3 \<le> length (slice (str ''Hello World.'') 6 11)
   \<and> ascii_upper (hd (slice (str ''Hello World.'') 6 11))
   \<and> findall no_alnum (str ''Hello World.'') = [str ''Hello'', str ''World'']"
proof -
  have t: "is_token no_alnum (str ''Hello World.'') 6 11" by code_simp
  have s: "slice (str ''Hello World.'') 6 11 = str ''World''" by code_simp
  have f: "findall no_alnum (str ''Hello World.'') = [str ''Hello'', str ''World'']" by code_simp
  from findall_gives_the_tokens [of no_alnum "str ''Hello World.''" 6 11, THEN conjunct2,
      THEN conjunct1, THEN mp, OF t]
  have "3 \<le> length (slice (str ''Hello World.'') 6 11)"
    and "ascii_upper (hd (slice (str ''Hello World.'') 6 11))"
    by blast+
  with t s f show ?thesis by (intro conjI)
qed

text \<open>
  C9. Tags named \<open>script\<close> or \<open>style\<close> are taken out before the text is extracted: the
  strings \<open>get_text\<close> joins are exactly the strings of the page outside such tags, and
  every word that is a key of the counter \<open>process_url\<close> returns occurs in one of
  them. A word that occurs only inside a \<open>script\<close> or \<open>style\<close> element is never a key.
\<close>

theorem script_and_style_not_counted:
  assumes "process_url U html_parser url (Inr (Response status content body)) = Inr (lg, c)"
    and "html_parser body = Inr soup"
    and "w \<in> keys c"
  shows "(\<exists>s. occurs_outside [str ''script'', str ''style''] s soup \<and> sublist w s)
     \<and> (\<forall>s. s \<in> set (all_strings (extract_all [str ''script'', str ''style''] soup))
              \<longleftrightarrow> occurs_outside [str ''script'', str ''style''] s soup)"
proof
  let ?names = "[str ''script'', str ''style'']"
  show "\<forall>s. s \<in> set (all_strings (extract_all ?names soup)) \<longleftrightarrow> occurs_outside ?names s soup"
    by (simp add: all_strings_extract_all)
  have "\<not> raise_for_status status"
  proof
    assume "raise_for_status status"
    with assms(1) have "c = []" by (simp add: process_url_def)
    with assms(3) show False by (simp add: keys_Nil)
  qed
  with assms(1,2) have "c = count_text U (get_text [32] (extract_all ?names soup))"
    by (simp add: process_url_def)
  with assms(3) obtain x where "x \<in> set (all_strings (extract_all ?names soup))" "sublist w x"
    by (blast dest: counted_word_in_some_string)
  then show "\<exists>s. occurs_outside ?names s soup \<and> sublist w s"
    by (auto simp: all_strings_extract_all)
qed

theorem script_and_style_not_counted_witness:
  "process_url no_alnum (always_page script_page) (str ''u'') (Inr (Response 200 [] []))
     = Inr ([], [(str ''World'', 1)])
   \<and> always_page script_page [] = Inr script_page
   \<and> str ''World'' \<in> keys [(str ''World'', 1)]
   \<and> (\<exists>s. occurs_outside [str ''script'', str ''style''] s script_page
            \<and> sublist (str ''World'') s)"
proof -
  have p: "process_url no_alnum (always_page script_page) (str ''u'') (Inr (Response 200 [] []))
     = Inr ([], [(str ''World'', 1)])"
    by code_simp
  have a: "always_page script_page [] = Inr script_page" by (simp add: always_page_def)
  have k: "str ''World'' \<in> keys [(str ''World'', 1)]" by (simp add: keys_def)
  note t = script_and_style_not_counted [where html_parser = "always_page script_page"
      and body = "[]" and soup = script_page, OF p a k, THEN conjunct1]
  from p a k t show ?thesis by (intro conjI)
qed

text \<open>
  C5, as stated, fails in two places. A status of 600 is no success, but
  \<open>raise_for_status\<close> raises for 400 to 599 only: the body is parsed and its URLs are
  returned. And \<open>ET.fromstring\<close> raises \<open>LookupError\<close>, not \<open>ParseError\<close>, for an
  unknown encoding: the exception leaves \<open>get_urls_from_sitemap\<close>.
\<close>

theorem status_600_and_unknown_encoding:
  "get_urls_from_sitemap (parses_to example_sitemap) (str ''s'') (Inr (Response 600 [] []))
     = Inr ([(INFO, Trovate_URL 2 (str ''s''))],
            [str ''https://example.com/a'', str ''https://example.com/b''])
   \<and> get_urls_from_sitemap unknown_encoding (str ''s'') (Inr (Response 200 [] []))
     = Inl (OtherException (str ''LookupError'') (str ''unknown encoding: foo''))"
  by code_simp


text \<open>
  C5, amended. When \<open>session.get\<close> raises a \<open>RequestException\<close>, when the status is
  between 400 and 599, or when \<open>ET.fromstring\<close> raises \<open>ParseError\<close>,
  \<open>get_urls_from_sitemap\<close> returns, without raising, the empty list and one logged line,
  at level ERROR. It returns that in no other case, and it raises exactly when
  \<open>session.get\<close> raises another exception or, the status being no such error,
  \<open>ET.fromstring\<close> raises one that is no \<open>ParseError\<close>.
\<close>

theorem failed_sitemap_gives_no_urls:
  assumes "got = Inl e \<and> is_RequestException e
           \<or> got = Inr (Response status content body)
              \<and> (raise_for_status status \<or> fromstring content = Inl e \<and> is_ParseError e)"
  shows "(\<exists>msg. get_urls_from_sitemap fromstring sitemap_url got = Inr ([(ERROR, msg)], []))
     \<and> ((\<exists>msg. get_urls_from_sitemap fromstring' sitemap_url got' = Inr ([(ERROR, msg)], []))
            = sitemap_caught fromstring' got')
     \<and> ((\<exists>x. get_urls_from_sitemap fromstring' sitemap_url got' = Inl x)
            = sitemap_escapes fromstring' got')"
proof (intro conjI)
  from assms have "sitemap_caught fromstring got"
    by (auto simp: sitemap_caught_def)
  then show "\<exists>msg. get_urls_from_sitemap fromstring sitemap_url got = Inr ([(ERROR, msg)], [])"
    by (simp add: get_urls_caught_iff)
qed (rule get_urls_caught_iff get_urls_escapes_iff)+

theorem failed_sitemap_gives_no_urls_witness:
  "is_RequestException (RequestException (str ''timed out''))
   \<and> get_urls_from_sitemap always_urlset (str ''s'') (Inl (RequestException (str ''timed out'')))
       = Inr ([(ERROR, Errore_download_sitemap (str ''s'') (RequestException (str ''timed out'')))], [])
   \<and> raise_for_status 404
   \<and> get_urls_from_sitemap always_urlset (str ''s'') (Inr (Response 404 [] []))
       = Inr ([(ERROR, Errore_download_sitemap (str ''s'') (HTTPError 404))], [])
   \<and> is_ParseError (ParseError (str ''syntax error''))
   \<and> (\<exists>msg. get_urls_from_sitemap (\<lambda>c. Inl (ParseError (str ''syntax error''))) (str ''s'')
           (Inr (Response 200 [] [])) = Inr ([(ERROR, msg)], []))"
proof -
  have r: "raise_for_status 404" by (simp add: raise_for_status_def)
  have a: "get_urls_from_sitemap always_urlset (str ''s'') (Inl (RequestException (str ''timed out'')))
       = Inr ([(ERROR, Errore_download_sitemap (str ''s'') (RequestException (str ''timed out'')))], [])"
    by (simp add: get_urls_from_sitemap_def)
  have b: "get_urls_from_sitemap always_urlset (str ''s'') (Inr (Response 404 [] []))
       = Inr ([(ERROR, Errore_download_sitemap (str ''s'') (HTTPError 404))], [])"
    using r by (simp add: get_urls_from_sitemap_def)
  have h: "Inr (Response 200 [] []) = Inl (ParseError (str ''syntax error''))
             \<and> is_RequestException (ParseError (str ''syntax error''))
           \<or> (Inr (Response 200 [] []) :: http_outcome) = Inr (Response 200 [] [])
              \<and> (raise_for_status 200
                  \<or> (\<lambda>c. Inl (ParseError (str ''syntax error''))) ([] :: nat list)
                       = (Inl (ParseError (str ''syntax error'')) :: exn + element)
                     \<and> is_ParseError (ParseError (str ''syntax error'')))"
    by simp
  note t = failed_sitemap_gives_no_urls [where got = "Inr (Response 200 [] [])"
      and e = "ParseError (str ''syntax error'')" and status = 200 and content = "[]"
      and body = "[]" and fromstring = "\<lambda>c. Inl (ParseError (str ''syntax error''))"
      and sitemap_url = "str ''s''", OF h, THEN conjunct1]
  from r a b t show ?thesis by simp
qed


text \<open>
  C6, as stated, fails in two places. A page answered with status 600 is parsed and
  counted like a success. And an exception of \<open>session.get\<close> that is no
  \<open>RequestException\<close> leaves \<open>process_url\<close>.
\<close>

theorem status_600_page_and_bad_location:
  "process_url no_alnum page_of_text (str ''u'') (Inr (Response 600 [] (str ''Hello World.'')))
     = Inr ([], [(str ''World'', 1)])
   \<and> process_url no_alnum page_of_text (str ''u'') bad_location
     = Inl (OtherException (str ''LocationParseError'') (str ''Failed to parse: http://[''))"
  by code_simp

text \<open>
  C6, amended. When \<open>session.get\<close> raises a \<open>RequestException\<close> or the status is
  between 400 and 599, \<open>process_url\<close> logs a warning and returns, without raising, the
  empty counter, as it does without a warning for a page fetched and parsed in which no
  sentence has a qualifying token; merging either result leaves \<open>total_counter\<close> as it
  is. Another exception of \<open>session.get\<close> leaves \<open>process_url\<close>; the loop of \<open>main\<close>
  catches it, and \<open>total_counter\<close> stays as it is as well.
\<close>

theorem failed_page_counts_as_empty:
  assumes "got = Inl e \<and> is_RequestException e
           \<or> got = Inr (Response status content body) \<and> raise_for_status status"
    and "\<not> raise_for_status status'"
    and "html_parser body' = Inr soup"
    and "list_all (\<lambda>sentence. findall U sentence = [])
           (re_split (get_text (str '' '') (extract_all [str ''script'', str ''style''] soup)))"
    and "\<not> is_RequestException e'"
  shows "(\<exists>msg. process_url U html_parser url got = Inr ([(WARNING, msg)], []))
     \<and> process_url U html_parser url' (Inr (Response status' content' body')) = Inr ([], [])
     \<and> fold_completed total_counter [process_url U html_parser url got] = total_counter
     \<and> fold_completed total_counter
          [process_url U html_parser url' (Inr (Response status' content' body'))] = total_counter
     \<and> process_url U html_parser url (Inl e') = Inl e'
     \<and> fold_completed total_counter [process_url U html_parser url (Inl e')] = total_counter"
proof -
  from assms(1) obtain msg where f: "process_url U html_parser url got = Inr ([(WARNING, msg)], [])"
    by (auto simp: process_url_def)
  from assms(4)
  have "count_text U (get_text (str '' '') (extract_all [str ''script'', str ''style''] soup)) = []"
    unfolding count_text_def count_sentences_def by (rule count_sentences_none)
  with assms(2,3)
  have g: "process_url U html_parser url' (Inr (Response status' content' body')) = Inr ([], [])"
    by (simp add: process_url_def)
  from assms(5) have h: "process_url U html_parser url (Inl e') = Inl e'"
    by (simp add: process_url_def)
  from f g h show ?thesis by (simp add: counter_update_Nil)
qed

theorem failed_page_counts_as_empty_witness:
  "raise_for_status 503 \<and> \<not> raise_for_status 200
   \<and> process_url no_alnum page_of_text (str ''u'') (Inr (Response 503 [] []))
       = Inr ([(WARNING, Fallito_download (str ''u'') (HTTPError 503))], [])
   \<and> process_url no_alnum page_of_text (str ''v'') (Inr (Response 200 [] (str ''nothing here.'')))
       = Inr ([], [])
   \<and> fold_completed [(str ''Rome'', 2)]
        [process_url no_alnum page_of_text (str ''u'') (Inr (Response 503 [] []))]
       = fold_completed [(str ''Rome'', 2)]
           [process_url no_alnum page_of_text (str ''v'')
              (Inr (Response 200 [] (str ''nothing here.'')))]
   \<and> fold_completed [(str ''Rome'', 2)] [process_url no_alnum page_of_text (str ''u'') bad_location]
       = [(str ''Rome'', 2)]"
proof -
  have r: "raise_for_status 503" and n: "\<not> raise_for_status 200"
    by (simp_all add: raise_for_status_def)
  have p: "page_of_text (str ''nothing here.'')
             = Inr (Tag (str ''[document]'') [NavigableString (str ''nothing here.'')])"
    by (simp add: page_of_text_def)
  have l: "list_all (\<lambda>sentence. findall no_alnum sentence = [])
           (re_split (get_text (str '' '') (extract_all [str ''script'', str ''style'']
              (Tag (str ''[document]'') [NavigableString (str ''nothing here.'')]))))"
    by code_simp
  have d: "Inr (Response 503 [] []) = Inl EOFError \<and> is_RequestException EOFError \<or>
           ((Inr (Response 503 [] []) :: http_outcome) = Inr (Response 503 [] []) \<and> raise_for_status 503)"
    using r by simp
  have x: "\<not> is_RequestException
             (OtherException (str ''LocationParseError'') (str ''Failed to parse: http://[''))"
    by simp
  note t = failed_page_counts_as_empty [where html_parser = page_of_text
      and body' = "str ''nothing here.''" and U = no_alnum and url = "str ''u''"
      and url' = "str ''v''" and content' = "[]" and total_counter = "[(str ''Rome'', 2)]",
      OF d n p l x]
  have w: "process_url no_alnum page_of_text (str ''u'') (Inr (Response 503 [] []))
       = Inr ([(WARNING, Fallito_download (str ''u'') (HTTPError 503))], [])"
    using r by (simp add: process_url_def)
  from t r n w show ?thesis by (simp add: bad_location_def)
qed


text \<open>
  C7, as stated, fails for the order among equal counts: it is the order in which the
  words entered the counter, which the order of completion of the pages decides. The
  same two pages give two different files, and two counters with the same counts give
  two different reports.
\<close>

theorem same_pages_two_reports:
  "word_counts_txt (main no_alnum (parses_to example_sitemap) page_of_text in_order_world)
     = Some (str ''Rome'' @ [9] @ str ''1'' @ [10] @ str ''Milan'' @ [9] @ str ''1'' @ [10])
   \<and> word_counts_txt (main no_alnum (parses_to example_sitemap) page_of_text last_first_world)
     = Some (str ''Milan'' @ [9] @ str ''1'' @ [10] @ str ''Rome'' @ [9] @ str ''1'' @ [10])
   \<and> report [(str ''Rome'', 1), (str ''Milan'', 1)]
     = str ''Rome'' @ [9] @ str ''1'' @ [10] @ str ''Milan'' @ [9] @ str ''1'' @ [10]
   \<and> report [(str ''Milan'', 1), (str ''Rome'', 1)]
     = str ''Milan'' @ [9] @ str ''1'' @ [10] @ str ''Rome'' @ [9] @ str ''1'' @ [10]"
  by code_simp


text \<open>
  C7, amended. The report is the concatenation, over the entries of the counter sorted by
  descending count, of the word, a tab, the count and a newline; the sorted entries are
  those of the counter, each once, and entries with the same count keep the order they
  have in the counter. A count is written in decimal digits, without a leading zero,
  and reads back as the count. For Apple 5, Banana 5, Cherry 1 the lines of Apple and
  Banana come before the line of Cherry, in either insertion order.
\<close>

theorem report_by_descending_count:
  "report total_counter
     = concat (map (\<lambda>(word, count). word @ [9] @ str_int count @ [10])
                 (most_common total_counter))
   \<and> mset (most_common total_counter) = mset total_counter
   \<and> sorted_wrt (\<lambda>a b. snd b \<le> snd a) (most_common total_counter)
   \<and> filter (\<lambda>e. snd e = k) (most_common total_counter) = filter (\<lambda>e. snd e = k) total_counter
   \<and> str_int (int n) = decimal n \<and> decimal_value (decimal n) = n
   \<and> list_all ascii_digit (decimal n) \<and> (hd (decimal n) = 48) = (n = 0)
   \<and> report [(str ''Apple'', 5), (str ''Banana'', 5), (str ''Cherry'', 1)]
       = str ''Apple'' @ [9] @ str ''5'' @ [10] @ str ''Banana'' @ [9] @ str ''5'' @ [10]
         @ str ''Cherry'' @ [9] @ str ''1'' @ [10]
   \<and> report [(str ''Cherry'', 1), (str ''Banana'', 5), (str ''Apple'', 5)]
       = str ''Banana'' @ [9] @ str ''5'' @ [10] @ str ''Apple'' @ [9] @ str ''5'' @ [10]
         @ str ''Cherry'' @ [9] @ str ''1'' @ [10]
   \<and> report [(str ''Rome'', 12), (str ''Milan'', 1050)]
       = str ''Milan'' @ [9] @ str ''1050'' @ [10] @ str ''Rome'' @ [9] @ str ''12'' @ [10]"
proof (intro conjI)
  show "report total_counter
     = concat (map (\<lambda>(word, count). word @ [9] @ str_int count @ [10])
                 (most_common total_counter))"
    by (rule report_concat)
  show "mset (most_common total_counter) = mset total_counter"
    by (simp add: most_common_def)
  show "sorted_wrt (\<lambda>a b. snd b \<le> snd a) (most_common total_counter)"
    by (rule most_common_sorted)
  show "filter (\<lambda>e. snd e = k) (most_common total_counter) = filter (\<lambda>e. snd e = k) total_counter"
    by (rule most_common_stable)
  show "str_int (int n) = decimal n" by (simp add: str_int_def)
  show "decimal_value (decimal n) = n" by (rule decimal_value_decimal)
  show "list_all ascii_digit (decimal n)" by (rule decimal_digits)
  show "(hd (decimal n) = 48) = (n = 0)" by (rule decimal_leading)
  show "report [(str ''Apple'', 5), (str ''Banana'', 5), (str ''Cherry'', 1)]
       = str ''Apple'' @ [9] @ str ''5'' @ [10] @ str ''Banana'' @ [9] @ str ''5'' @ [10]
         @ str ''Cherry'' @ [9] @ str ''1'' @ [10]"
    by code_simp
  show "report [(str ''Cherry'', 1), (str ''Banana'', 5), (str ''Apple'', 5)]
       = str ''Banana'' @ [9] @ str ''5'' @ [10] @ str ''Apple'' @ [9] @ str ''5'' @ [10]
         @ str ''Cherry'' @ [9] @ str ''1'' @ [10]"
    by code_simp
  show "report [(str ''Rome'', 12), (str ''Milan'', 1050)]
       = str ''Milan'' @ [9] @ str ''1050'' @ [10] @ str ''Rome'' @ [9] @ str ''12'' @ [10]"
    by code_simp
qed


text \<open>
  C8, as stated, fails in two places. In a run where every fetch succeeds and the file is
  written, but standard input is at its end, \<open>input\<close> raises \<open>EOFError\<close>, which nobody
  catches, and the process ends with status 1. And in a run where \<open>ET.fromstring\<close>
  raises \<open>LookupError\<close> for a sitemap, the exception leaves \<open>get_urls_from_sitemap\<close> and
  \<open>main\<close>: the process ends with status 1 and no file is written.
\<close>

theorem nonzero_exit_without_write_failure:
  "io_error eof_world = None
   \<and> exit_status (main no_alnum always_urlset page_of_text eof_world) = 1
   \<and> word_counts_txt (main no_alnum always_urlset page_of_text eof_world) = Some []
   \<and> io_error quiet_world = None \<and> stdin_line quiet_world = Some []
   \<and> exit_status (main no_alnum unknown_encoding page_of_text quiet_world) = 1
   \<and> word_counts_txt (main no_alnum unknown_encoding page_of_text quiet_world) = None"
  by code_simp

text \<open>
  C8, amended. The exit status of \<open>main\<close> is 1 exactly when a sitemap raises an exception
  that \<open>get_urls_from_sitemap\<close> does not catch, when writing the output file fails, or
  when \<open>input\<close> finds standard input at its end; otherwise it is 0. A line reporting a
  write error is logged exactly when the sitemaps are read and the write fails. No file
  is left exactly when a sitemap raises such an exception or the write fails. What the
  pages answer, what the HTML parser does and the order of completion have no part in
  the exit status.
\<close>

theorem exit_status_of_main:
  "exit_status (main U fromstring html_parser w)
     = (if list_ex (\<lambda>sm. sitemap_escapes fromstring (sitemap_get w sm)) sitemap_urls
           \<or> io_error w \<noteq> None \<or> stdin_line w = None
        then 1 else 0)
   \<and> list_ex is_write_error (logged (main U fromstring html_parser w))
       = (\<not> list_ex (\<lambda>sm. sitemap_escapes fromstring (sitemap_get w sm)) sitemap_urls
          \<and> io_error w \<noteq> None)
   \<and> (word_counts_txt (main U fromstring html_parser w) = None)
       = (list_ex (\<lambda>sm. sitemap_escapes fromstring (sitemap_get w sm)) sitemap_urls
          \<or> io_error w \<noteq> None)
   \<and> exit_status (main U' fromstring html_parser' (w\<lparr>page_get := pages, completion := sched\<rparr>))
       = exit_status (main U fromstring html_parser w)"
proof -
  let ?esc = "\<lambda>w. list_ex (\<lambda>sm. sitemap_escapes fromstring (sitemap_get w sm)) sitemap_urls"
  have s: "\<not> is_write_error (INFO, Inizio_scansione k)" for k by (simp add: is_write_error_def)
  have v: "\<not> is_write_error (INFO, Risultati_salvati f)" for f by (simp add: is_write_error_def)
  have e: "is_write_error (ERROR, Errore_scrittura_file f m)" for f m by (simp add: is_write_error_def)
  have main3: "exit_status (main U fromstring html_parser w)
                 = (if ?esc w \<or> io_error w \<noteq> None \<or> stdin_line w = None then 1 else 0)
     \<and> list_ex is_write_error (logged (main U fromstring html_parser w))
         = (\<not> ?esc w \<and> io_error w \<noteq> None)
     \<and> (word_counts_txt (main U fromstring html_parser w) = None)
         = (?esc w \<or> io_error w \<noteq> None)" for U html_parser w
  proof -
    obtain lg0 r where rs: "read_sitemaps fromstring (sitemap_get w) sitemap_urls [] [] = (lg0, r)"
      by (cases "read_sitemaps fromstring (sitemap_get w) sitemap_urls [] []")
    with read_sitemaps_no_write_error [of "[]" fromstring "sitemap_get w" sitemap_urls "[]"]
    have l0: "\<not> list_ex is_write_error lg0" by simp
    from rs read_sitemaps_raises_iff [of fromstring "sitemap_get w" sitemap_urls "[]" "[]"]
    have esc: "?esc w \<longleftrightarrow> (\<exists>e. r = Inl e)" by simp
    show ?thesis
    proof (cases r)
      case (Inl x)
      with esc have "?esc w" by simp
      with Inl rs l0 show ?thesis by (simp add: main_def)
    next
      case (Inr all_urls)
      with esc have "\<not> ?esc w" by simp
      with Inr rs l0 s v e progress_log_no_write_error show ?thesis
        by (cases "io_error w"; cases "stdin_line w") (simp_all add: main_def Let_def)
    qed
  qed
  have "exit_status (main U' fromstring html_parser' (w\<lparr>page_get := pages, completion := sched\<rparr>))
       = exit_status (main U fromstring html_parser w)"
    using main3 [of U' html_parser' "w\<lparr>page_get := pages, completion := sched\<rparr>"]
      main3 [of U html_parser w] by simp
  with main3 [of U html_parser w] show ?thesis by simp
qed

theorem exit_status_of_main_witness:
  "io_error readonly_world = Some (str ''Permission denied'')
   \<and> exit_status (main no_alnum always_urlset page_of_text readonly_world) = 1
   \<and> list_ex is_write_error (logged (main no_alnum always_urlset page_of_text readonly_world))
   \<and> io_error quiet_world = None \<and> stdin_line quiet_world = Some []
   \<and> exit_status (main no_alnum always_urlset page_of_text quiet_world) = 0
   \<and> exit_status (main no_alnum unknown_encoding page_of_text quiet_world) = 1"
proof -
  have a: "\<not> list_ex (\<lambda>sm. sitemap_escapes always_urlset (all_fine sm)) sitemap_urls"
    by (simp add: sitemap_urls_def sitemap_escapes_def all_fine_def always_urlset_def
          raise_for_status_def)
  have b: "list_ex (\<lambda>sm. sitemap_escapes unknown_encoding (all_fine sm)) sitemap_urls"
    by (simp add: sitemap_urls_def sitemap_escapes_def all_fine_def unknown_encoding_def
          raise_for_status_def)
  show ?thesis
    using exit_status_of_main [of no_alnum always_urlset page_of_text readonly_world]
      exit_status_of_main [of no_alnum always_urlset page_of_text quiet_world]
      exit_status_of_main [of no_alnum unknown_encoding page_of_text quiet_world] a b
    by (simp add: readonly_world_def quiet_world_def)
qed


end
